theory Spec2Isabelle
  imports Complex_Main "HOL-Library.Sublist" "HOL-Library.Multiset"
begin

section \<open>Canvas Archiver: data model\<close>

text \<open>
  The plugin (\<^verbatim>\<open>src/main.ts\<close>) reads a canvas (a list of nodes), files every blue
  text card under the group rectangle that contains it, merges the cards into a kanban
  markdown file and removes them from the canvas. An earlier revision of the same file
  (\<^verbatim>\<open>src/unnamed/part_000\<close>) resolves groups by first match.

  Numbers: the TypeScript \<^verbatim>\<open>number\<close> fields hold canvas coordinates, finite doubles. The
  sums and products the code forms of them are rounded as doubles are (section Numbers).

  Strings: a JavaScript string is a sequence of code units, and \<^verbatim>\<open>startsWith\<close>,
  \<^verbatim>\<open>substring\<close>, \<^verbatim>\<open>split\<close>, \<^verbatim>\<open>join\<close>, \<^verbatim>\<open>replace\<close> and \<^verbatim>\<open>trim\<close> work unit by unit. A
  \<^typ>\<open>string\<close> here is the list of those units, each below 256.

  Values the code never looks into (\<^verbatim>\<open>unknown\<close>, \<^verbatim>\<open>any\<close>) are parsed JSON values.
\<close>

datatype json =
    JNull
  | JBool bool
  | JNum real
  | JStr string
  | JArr "json list"
  | JObj "(string \<times> json) list"

text \<open>
  \<^verbatim>\<open>interface CanvasNode\<close>. The optional \<^verbatim>\<open>color\<close> is an option. \<^verbatim>\<open>text\<close> and \<^verbatim>\<open>label\<close>
  are read only through the narrowed interfaces \<^verbatim>\<open>TextNode\<close> and \<^verbatim>\<open>GroupNode\<close>, which
  declare them as required strings, so they are strings here.
\<close>

record CanvasNode =
  node_id :: string
  node_type :: string
  node_x :: real
  node_y :: real
  node_width :: real
  node_height :: real
  node_text :: string
  node_color :: "string option"
  node_label :: string
  node_styleAttributes :: "(string \<times> json) list"

record CanvasData =
  nodes :: "CanvasNode list"
  edges :: "json list"
  metadata :: "(string \<times> json) list"

section \<open>Numbers\<close>

text \<open>
  A TypeScript \<^verbatim>\<open>number\<close> is an IEEE 754 double. The coordinates of a node are finite
  doubles, held here as the reals they denote. \<^verbatim>\<open>+\<close> and \<^verbatim>\<open>*\<close> give the exact result rounded
  to the nearest double, ties to the even significand, and \<open>Infinity\<close> or \<open>-Infinity\<close> when
  the rounded magnitude reaches \<open>2 ^ 1024\<close>; with finite operands they never give \<open>NaN\<close>. The
  code only compares these results.
\<close>

datatype number = NegInfinity | Finite real | Infinity

text \<open>\<^verbatim>\<open>a < b\<close> and \<^verbatim>\<open>a <= b\<close> on such results.\<close>

fun js_lt :: "number \<Rightarrow> number \<Rightarrow> bool" where
  "js_lt (Finite a) (Finite b) = (a < b)"
| "js_lt (Finite a) Infinity = True"
| "js_lt (Finite a) NegInfinity = False"
| "js_lt NegInfinity (Finite b) = True"
| "js_lt NegInfinity Infinity = True"
| "js_lt NegInfinity NegInfinity = False"
| "js_lt Infinity b = False"

definition js_le :: "number \<Rightarrow> number \<Rightarrow> bool" where
  "js_le a b \<longleftrightarrow> js_lt a b \<or> a = b"

text \<open>The largest \<open>k\<close> with \<open>2 ^ k \<le> n\<close>, for \<open>n \<ge> 1\<close>.\<close>

function floor_log2 :: "int \<Rightarrow> int" where
  "floor_log2 n = (if n < 2 then 0 else 1 + floor_log2 (n div 2))"
  by pat_completeness auto
termination
  by (relation "measure nat") auto

declare floor_log2.simps [simp del]

definition pow2 :: "int \<Rightarrow> real" where
  "pow2 e = (if 0 \<le> e then of_int (2 ^ nat e) else 1 / of_int (2 ^ nat (- e)))"

text \<open>The exponent \<open>k\<close> of a positive real \<open>a\<close>: \<open>2 ^ k \<le> a < 2 ^ (k + 1)\<close>.\<close>

definition binary_exponent :: "real \<Rightarrow> int" where
  "binary_exponent a =
     (if 1 \<le> a then floor_log2 \<lfloor>a\<rfloor>
      else (let n = \<lceil>1 / a\<rceil> in - (if n \<le> 1 then 0 else 1 + floor_log2 (n - 1))))"

text \<open>The nearest integer, the even one of two equally near.\<close>

definition round_half_even :: "real \<Rightarrow> int" where
  "round_half_even q =
     (let f = \<lfloor>q\<rfloor>; d = q - of_int f
      in if d < 1 / 2 then f else if 1 / 2 < d then f + 1 else if even f then f else f + 1)"

text \<open>
  Rounding to double: the spacing of the doubles around \<open>a\<close> is \<open>2 ^ e\<close>, with 53 bits of
  significand and no exponent below \<open>-1074\<close>.
\<close>

definition round_double :: "real \<Rightarrow> number" where
  "round_double r =
     (if r = 0 then Finite 0
      else (let a = \<bar>r\<bar>;
                e = max (binary_exponent a - 52) (- 1074);
                v = of_int (round_half_even (a / pow2 e)) * pow2 e
            in if of_int (2 ^ 1024) \<le> v then (if r < 0 then NegInfinity else Infinity)
               else Finite (if r < 0 then - v else v)))"

definition js_add :: "real \<Rightarrow> real \<Rightarrow> number" where
  "js_add a b = round_double (a + b)"

definition js_mul :: "real \<Rightarrow> real \<Rightarrow> number" where
  "js_mul a b = round_double (a * b)"

section \<open>Group resolution\<close>

text \<open>\<^verbatim>\<open>isNodeInGroup\<close> (main.ts 79-84, the same in both revisions).\<close>

definition isNodeInGroup :: "CanvasNode \<Rightarrow> CanvasNode \<Rightarrow> bool" where
  "isNodeInGroup node grp \<longleftrightarrow>
     node_x node \<ge> node_x grp \<and>
     js_le (js_add (node_x node) (node_width node)) (js_add (node_x grp) (node_width grp)) \<and>
     node_y node \<ge> node_y grp \<and>
     js_le (js_add (node_y node) (node_height node)) (js_add (node_y grp) (node_height grp))"

text \<open>The callback of \<^verbatim>\<open>matchingGroups.reduce\<close> (main.ts 96-100).\<close>

definition smaller :: "CanvasNode \<Rightarrow> CanvasNode \<Rightarrow> CanvasNode" where
  "smaller smallest current =
     (let currentArea = js_mul (node_width current) (node_height current);
          smallestArea = js_mul (node_width smallest) (node_height smallest)
      in if js_lt currentArea smallestArea then current else smallest)"

text \<open>
  \<^verbatim>\<open>findNodeGroup\<close> of the current revision (main.ts 87-103). \<^verbatim>\<open>reduce\<close> without an
  initial value starts from the first element and folds the rest from the left; it is
  reached only with a non-empty array.
\<close>

definition findNodeGroup :: "CanvasNode \<Rightarrow> CanvasNode list \<Rightarrow> string" where
  "findNodeGroup node groups =
     (case filter (isNodeInGroup node) groups of
        [] \<Rightarrow> ''Uncategorized''
      | g # gs \<Rightarrow> node_label (foldl smaller g gs))"

text \<open>\<^verbatim>\<open>findNodeGroup\<close> of the earlier revision (part_000 87-94): the first match.\<close>

fun findNodeGroup_first :: "CanvasNode \<Rightarrow> CanvasNode list \<Rightarrow> string" where
  "findNodeGroup_first node [] = ''Uncategorized''"
| "findNodeGroup_first node (grp # groups) =
     (if isNodeInGroup node grp then node_label grp
      else findNodeGroup_first node groups)"


section \<open>The grouped-cards map\<close>

text \<open>
  \<^verbatim>\<open>Map<string, TextNode[]>\<close>: a JavaScript \<^verbatim>\<open>Map\<close> iterates in the order the keys were
  first set, so it is an association list in that order. \<^verbatim>\<open>set\<close> on a key already
  present keeps its place; \<^verbatim>\<open>delete\<close> removes it.
\<close>

type_synonym 'v js_map = "(string \<times> 'v) list"

definition map_get :: "'v js_map \<Rightarrow> string \<Rightarrow> 'v option" where
  "map_get m k = map_of m k"

definition map_has :: "'v js_map \<Rightarrow> string \<Rightarrow> bool" where
  "map_has m k \<longleftrightarrow> map_of m k \<noteq> None"

definition map_set :: "'v js_map \<Rightarrow> string \<Rightarrow> 'v \<Rightarrow> 'v js_map" where
  "map_set m k v =
     (if map_has m k then map (\<lambda>(k', v'). if k' = k then (k', v) else (k', v')) m
      else m @ [(k, v)])"

definition map_delete :: "'v js_map \<Rightarrow> string \<Rightarrow> 'v js_map" where
  "map_delete m k = filter (\<lambda>(k', v'). k' \<noteq> k) m"

text \<open>
  The body of \<^verbatim>\<open>blueCards.forEach\<close> (main.ts 127-136). \<^verbatim>\<open>cards.push(card)\<close> extends the
  array the map holds under \<^verbatim>\<open>groupName\<close>.
\<close>

definition addCard ::
  "CanvasNode list \<Rightarrow> CanvasNode list js_map \<Rightarrow> CanvasNode \<Rightarrow> CanvasNode list js_map" where
  "addCard groupNodes groupedCards crd =
     (let groupName = findNodeGroup crd groupNodes;
          m = (if \<not> map_has groupedCards groupName then map_set groupedCards groupName []
               else groupedCards)
      in case map_get m groupName of
           Some cards \<Rightarrow> map_set m groupName (cards @ [crd])
         | None \<Rightarrow> m)"

definition groupCards :: "CanvasNode list \<Rightarrow> CanvasNode list \<Rightarrow> CanvasNode list js_map" where
  "groupCards blueCards groupNodes = foldl (addCard groupNodes) [] blueCards"

section \<open>Strings\<close>

definition startsWith :: "string \<Rightarrow> string \<Rightarrow> bool" where
  "startsWith s p \<longleftrightarrow> take (length p) s = p"

definition substring :: "string \<Rightarrow> nat \<Rightarrow> string" where
  "substring s n = drop n s"

text \<open>The white space \<^verbatim>\<open>trim\<close> removes, among the code units below 256.\<close>

definition isWhiteSpace :: "char \<Rightarrow> bool" where
  "isWhiteSpace c \<longleftrightarrow>
     c \<in> {CHR 0x09, CHR 0x0A, CHR 0x0B, CHR 0x0C, CHR 0x0D, CHR 0x20, CHR 0xA0}"

definition trim :: "string \<Rightarrow> string" where
  "trim s = rev (dropWhile isWhiteSpace (rev (dropWhile isWhiteSpace s)))"

text \<open>\<^verbatim>\<open>s.split('\n')\<close>: never empty, the empty string gives one empty line.\<close>

fun split_lines :: "string \<Rightarrow> string list" where
  "split_lines [] = [[]]"
| "split_lines (c # cs) =
     (if c = CHR ''\<newline>'' then [] # split_lines cs
      else (case split_lines cs of
              l # ls \<Rightarrow> (c # l) # ls
            | [] \<Rightarrow> [[c]]))"

text \<open>\<^verbatim>\<open>lines.join('\n')\<close>.\<close>

fun join_lines :: "string list \<Rightarrow> string" where
  "join_lines [] = []"
| "join_lines [l] = l"
| "join_lines (l # ls) = l @ ''\<newline>'' @ join_lines ls"

text \<open>\<^verbatim>\<open>text.replace(/\n/g, '<br>')\<close>.\<close>

definition replace_newlines :: "string \<Rightarrow> string" where
  "replace_newlines s = concat (map (\<lambda>c. if c = CHR ''\<newline>'' then ''<br>'' else [c]) s)"

text \<open>The template \<^verbatim>\<open>`- [ ] ${card.text.replace(/\n/g, '<br>')}`\<close> (main.ts 180, 195).\<close>

definition cardLine :: "CanvasNode \<Rightarrow> string" where
  "cardLine crd = ''- [ ] '' @ replace_newlines (node_text crd)"

text \<open>
  \<^verbatim>\<open>lines.splice(start, 0, ...items)\<close>: a negative start counts from the end, a start
  beyond the end is the end.
\<close>

definition splice :: "'a list \<Rightarrow> int \<Rightarrow> 'a list \<Rightarrow> 'a list" where
  "splice xs start items =
     (let len = int (length xs);
          k = nat (if start < 0 then max (len + start) 0 else min start len)
      in take k xs @ items @ drop k xs)"

section \<open>Merging the cards into the kanban file\<close>

definition header :: string where
  "header = ''---\<newline>\<newline>kanban-plugin: basic\<newline>\<newline>---\<newline>\<newline>''"

text \<open>
  main.ts 147-160. The argument is the content of the archive file, \<open>None\<close> when the vault
  has no file at that path.
\<close>

definition initialContent :: "string option \<Rightarrow> string" where
  "initialContent existing =
     (case existing of
        Some existingContent \<Rightarrow>
          (if \<not> startsWith existingContent header then header @ existingContent
           else existingContent)
      | None \<Rightarrow> header)"

text \<open>The variables the \<^verbatim>\<open>contentLines.forEach\<close> callback reads and writes.\<close>

record walk_state =
  contentLines :: "string list"
  currentGroup :: string
  insertIndex :: int
  groupedCards :: "CanvasNode list js_map"

text \<open>The callback (main.ts 168-189) at one index.\<close>

definition walk_step :: "nat \<Rightarrow> walk_state \<Rightarrow> walk_state" where
  "walk_step index s =
     (let line = contentLines s ! index in
      if startsWith line ''## '' then
        (let s1 = s\<lparr>currentGroup := trim (substring line 3)\<rparr> in
         if map_has (groupedCards s1) (currentGroup s1) then s1\<lparr>insertIndex := int index\<rparr>
         else s1)
      else if startsWith line ''## '' \<or> int index = int (length (contentLines s)) - 1 then
        (let s1 =
           (if insertIndex s \<noteq> - 1 \<and> map_has (groupedCards s) (currentGroup s) then
              (case map_get (groupedCards s) (currentGroup s) of
                 Some cards \<Rightarrow>
                   s\<lparr>contentLines :=
                        splice (contentLines s) (insertIndex s + 1) (map cardLine cards),
                     groupedCards := map_delete (groupedCards s) (currentGroup s),
                     insertIndex := - 1\<rparr>
               | None \<Rightarrow> s\<lparr>insertIndex := - 1\<rparr>)
            else s)
         in s1\<lparr>currentGroup := ''''\<rparr>)
      else s)"

text \<open>
  \<^verbatim>\<open>contentLines.forEach\<close>: the indices visited are those below the length the array had
  when the loop began; the element and the length are read from the array as it is at
  each call.
\<close>

definition walk :: "string list \<Rightarrow> CanvasNode list js_map \<Rightarrow> walk_state" where
  "walk lines m =
     fold walk_step [0..<length lines]
       \<lparr>contentLines = lines, currentGroup = '''', insertIndex = - 1, groupedCards = m\<rparr>"

text \<open>
  main.ts 192-197: every group still in the map is pushed as one element
  \<^verbatim>\<open>`\n## ${group}\n`\<close> followed by one element per card.
\<close>

definition pushGroup :: "string list \<Rightarrow> string \<times> CanvasNode list \<Rightarrow> string list" where
  "pushGroup ls entry =
     (case entry of (g, cards) \<Rightarrow>
        foldl (\<lambda>ls' crd. ls' @ [cardLine crd]) (ls @ [''\<newline>## '' @ g @ ''\<newline>'']) cards)"

definition appendGroups :: "string list \<Rightarrow> CanvasNode list js_map \<Rightarrow> string list" where
  "appendGroups ls m = foldl pushGroup ls m"

text \<open>
  main.ts 163-197 on the lines of the content: the walk, then the groups still in the map
  pushed at the end.
\<close>

definition processLines :: "string list \<Rightarrow> CanvasNode list js_map \<Rightarrow> string list" where
  "processLines lines m =
     (let s = walk lines m in appendGroups (contentLines s) (groupedCards s))"

text \<open>main.ts 147-199: from the existing file and the grouped cards to the new content.\<close>

definition mergeLines :: "string option \<Rightarrow> CanvasNode list js_map \<Rightarrow> string list" where
  "mergeLines existing m = processLines (split_lines (initialContent existing)) m"

definition merge :: "string option \<Rightarrow> CanvasNode list js_map \<Rightarrow> string" where
  "merge existing m = join_lines (mergeLines existing m)"

section \<open>The command\<close>

text \<open>
  \<^verbatim>\<open>archiveBlueCards\<close> (main.ts 105-224) on the parsed canvas. \<open>basename\<close> and \<open>parent\<close> are
  those of the canvas file (\<open>None\<close>: no parent folder), \<open>vault\<close> gives the content of the
  file at a path. The outcome says what is written: nothing when there is no blue card
  or when the function throws, otherwise the archive file and the canvas.
\<close>

datatype outcome =
    NoBlueCards
  | Failed
  | Archived string string CanvasData

definition archiveBlueCards ::
  "CanvasData \<Rightarrow> string \<Rightarrow> string option \<Rightarrow> (string \<Rightarrow> string option) \<Rightarrow> outcome" where
  "archiveBlueCards canvasData basename parent vault =
     (let groupNodes = filter (\<lambda>node. node_type node = ''group'') (nodes canvasData);
          blueCards = filter (\<lambda>node. node_type node = ''text'' \<and> node_color node = Some ''6'')
                        (nodes canvasData)
      in if length blueCards = 0 then NoBlueCards
         else
           (let grouped = groupCards blueCards groupNodes;
                fileName = basename @ ''-archive.md''
            in case parent of
                 None \<Rightarrow> Failed
               | Some parentPath \<Rightarrow>
                   (let filePath = parentPath @ ''/'' @ fileName;
                        kanbanContent = merge (vault filePath) grouped;
                        updatedNodes =
                          filter (\<lambda>node. \<not> (node_type node = ''text'' \<and> node_color node = Some ''6''))
                            (nodes canvasData);
                        updatedCanvasData = canvasData\<lparr>nodes := updatedNodes\<rparr>
                    in Archived filePath kanbanContent updatedCanvasData)))"

section \<open>Notions used to state the properties of the walk\<close>

text \<open>A heading line and the section name it carries, as the callback reads them.\<close>

abbreviation isHeading :: "string \<Rightarrow> bool" where
  "isHeading l \<equiv> startsWith l ''## ''"

abbreviation sectionName :: "string \<Rightarrow> string" where
  "sectionName l \<equiv> trim (substring l 3)"

text \<open>The lines of the header; the header is these six lines, each ended by a line break.\<close>

definition headerLines :: "string list" where
  "headerLines = [''---'', '''', ''kanban-plugin: basic'', '''', ''---'', '''']"

text \<open>
  What holds of the callback's variables before index \<open>k\<close>, as long as no line has been
  spliced: the array and the map are the initial ones; \<^verbatim>\<open>insertIndex\<close> is \<open>-1\<close> or the index of
  a heading; and when \<^verbatim>\<open>currentGroup\<close> is a key of the map and \<^verbatim>\<open>insertIndex\<close> is set, it is the
  index of the last heading so far, which carries that name.
\<close>

definition scan_inv :: "string list \<Rightarrow> CanvasNode list js_map \<Rightarrow> nat \<Rightarrow> walk_state \<Rightarrow> bool" where
  "scan_inv L m k s \<longleftrightarrow>
     contentLines s = L \<and> groupedCards s = m \<and>
     (insertIndex s = - 1 \<or> (\<exists>j<k. insertIndex s = int j \<and> isHeading (L ! j))) \<and>
     (map_has m (currentGroup s) \<longrightarrow> insertIndex s = - 1 \<or>
        (\<exists>j<k. insertIndex s = int j \<and> isHeading (L ! j) \<and> sectionName (L ! j) = currentGroup s \<and>
           (\<forall>i. j < i \<and> i < k \<longrightarrow> \<not> isHeading (L ! i))))"

text \<open>
  Conversely, before index \<open>k\<close> and as long as no line has been spliced: when the last
  heading so far is at \<open>j\<close>, \<^verbatim>\<open>currentGroup\<close> is the name it carries, and \<^verbatim>\<open>insertIndex\<close> is \<open>j\<close>
  if that name is a key of the map.
\<close>

definition scan_last :: "string list \<Rightarrow> CanvasNode list js_map \<Rightarrow> nat \<Rightarrow> walk_state \<Rightarrow> bool" where
  "scan_last L m k s \<longleftrightarrow>
     contentLines s = L \<and> groupedCards s = m \<and>
     (\<forall>j<k. isHeading (L ! j) \<and> (\<forall>i. j < i \<and> i < k \<longrightarrow> \<not> isHeading (L ! i)) \<longrightarrow>
        currentGroup s = sectionName (L ! j) \<and>
        (map_has m (sectionName (L ! j)) \<longrightarrow> insertIndex s = int j))"

section \<open>Example inputs\<close>

definition mkNode ::
  "string \<Rightarrow> string \<Rightarrow> real \<Rightarrow> real \<Rightarrow> real \<Rightarrow> real \<Rightarrow> string \<Rightarrow> string option \<Rightarrow> string
     \<Rightarrow> CanvasNode" where
  "mkNode i t x y w h txt c l =
     \<lparr>node_id = i, node_type = t, node_x = x, node_y = y, node_width = w, node_height = h,
      node_text = txt, node_color = c, node_label = l, node_styleAttributes = []\<rparr>"

definition blueCard :: "string \<Rightarrow> CanvasNode" where
  "blueCard txt = mkNode ''c'' ''text'' 0 0 10 10 txt (Some ''6'') ''''"

text \<open>
  A canvas with one group, two blue cards (one inside the group, one outside every group)
  and a text card of another colour.
\<close>

definition exGroup :: CanvasNode where
  "exGroup = mkNode ''g1'' ''group'' 0 0 100 100 '''' None ''Backlog''"

definition exCard1 :: CanvasNode where
  "exCard1 = mkNode ''c1'' ''text'' 10 10 5 5 ''first'' (Some ''6'') ''''"

definition exCard2 :: CanvasNode where
  "exCard2 = mkNode ''c2'' ''text'' 200 200 5 5 ''second'' (Some ''6'') ''''"

definition exOther :: CanvasNode where
  "exOther = mkNode ''n1'' ''text'' 20 20 5 5 ''keep'' (Some ''1'') ''''"

definition exCanvas :: CanvasData where
  "exCanvas =
     \<lparr>nodes = [exGroup, exCard1, exOther, exCard2],
      edges = [JObj [(''id'', JStr ''e1'')]],
      metadata = [(''version'', JStr ''1.0'')]\<rparr>"

section \<open>The order of computed numbers\<close>

lemma js_le_refl: "js_le a a"
  by (simp add: js_le_def)




lemma js_le_trans: "js_le a b \<Longrightarrow> js_le b c \<Longrightarrow> js_le a c"
  by (cases a; cases b; cases c) (auto simp: js_le_def)



text \<open>
  Rounding and overflow at work: \<open>2 ^ 53 + 1\<close> is no double and rounds to the even
  neighbour \<open>2 ^ 53\<close>, \<open>2 ^ 53 + 3\<close> to \<open>2 ^ 53 + 4\<close>; \<open>2 ^ 1040\<close> overflows.
\<close>

lemma round_double_examples:
  "js_add 9007199254740992 1 = Finite 9007199254740992 \<and>
   js_add 9007199254740992 3 = Finite 9007199254740996 \<and>
   js_mul 3 3002399751580331 = Finite 9007199254740992 \<and>
   js_add (1 / 4) (1 / 2) = Finite (3 / 4) \<and>
   js_mul (of_int (2 ^ 520)) (of_int (2 ^ 520)) = Infinity"
  by code_simp

section \<open>Containment is inclusive\<close>

text \<open>
  C6. The containment test is inclusive on all four boundaries: a node whose left, right,
  top and bottom edges coincide with those of the group, the right and bottom edges as
  the code computes them, is contained in it.
\<close>

theorem isNodeInGroup_flush_edges:
  assumes "node_x node = node_x grp"
      and "js_add (node_x node) (node_width node) = js_add (node_x grp) (node_width grp)"
      and "node_y node = node_y grp"
      and "js_add (node_y node) (node_height node) = js_add (node_y grp) (node_height grp)"
  shows "isNodeInGroup node grp"
  using assms by (simp add: isNodeInGroup_def js_le_refl)

theorem isNodeInGroup_flush_edges_witness:
  "node_x (mkNode ''c1'' ''text'' 0 0 100 100 ''a'' (Some ''6'') '''') =
     node_x (mkNode ''g1'' ''group'' 0 0 100 100 '''' None ''Backlog'') \<and>
   js_add (node_x (mkNode ''c1'' ''text'' 0 0 100 100 ''a'' (Some ''6'') ''''))
     (node_width (mkNode ''c1'' ''text'' 0 0 100 100 ''a'' (Some ''6'') '''')) =
     js_add (node_x (mkNode ''g1'' ''group'' 0 0 100 100 '''' None ''Backlog''))
     (node_width (mkNode ''g1'' ''group'' 0 0 100 100 '''' None ''Backlog'')) \<and>
   node_y (mkNode ''c1'' ''text'' 0 0 100 100 ''a'' (Some ''6'') '''') =
     node_y (mkNode ''g1'' ''group'' 0 0 100 100 '''' None ''Backlog'') \<and>
   js_add (node_y (mkNode ''c1'' ''text'' 0 0 100 100 ''a'' (Some ''6'') ''''))
     (node_height (mkNode ''c1'' ''text'' 0 0 100 100 ''a'' (Some ''6'') '''')) =
     js_add (node_y (mkNode ''g1'' ''group'' 0 0 100 100 '''' None ''Backlog''))
     (node_height (mkNode ''g1'' ''group'' 0 0 100 100 '''' None ''Backlog'')) \<and>
   isNodeInGroup (mkNode ''c1'' ''text'' 0 0 100 100 ''a'' (Some ''6'') '''')
     (mkNode ''g1'' ''group'' 0 0 100 100 '''' None ''Backlog'')"
  using isNodeInGroup_flush_edges
    [of "mkNode ''c1'' ''text'' 0 0 100 100 ''a'' (Some ''6'') ''''"
        "mkNode ''g1'' ''group'' 0 0 100 100 '''' None ''Backlog''"]
  by (simp add: mkNode_def)

section \<open>The smallest containing group\<close>







section \<open>The two revisions of the resolver\<close>

lemma findNodeGroup_first_filter:
  "findNodeGroup_first node groups =
     (case filter (isNodeInGroup node) groups of
        [] \<Rightarrow> ''Uncategorized''
      | g # gs \<Rightarrow> node_label g)"
  by (induction groups) auto

text \<open>
  C10. When at most one group of the list contains the node, the first-match resolution
  of the earlier revision and the smallest-area resolution of the current one return the
  same name: the label of the one containing group, or "Uncategorized" when there is
  none. So they can differ only when two or more groups contain the node.
\<close>

theorem findNodeGroup_revisions_agree:
  assumes "length (filter (isNodeInGroup node) groups) \<le> 1"
  shows "findNodeGroup_first node groups = findNodeGroup node groups \<and>
         findNodeGroup node groups =
           (case filter (isNodeInGroup node) groups of
              [] \<Rightarrow> ''Uncategorized''
            | g # gs \<Rightarrow> node_label g)"
proof (cases "filter (isNodeInGroup node) groups")
  case Nil
  then show ?thesis by (simp add: findNodeGroup_first_filter findNodeGroup_def)
next
  case (Cons g gs)
  with assms have "gs = []" by simp
  with Cons show ?thesis by (simp add: findNodeGroup_first_filter findNodeGroup_def)
qed

theorem findNodeGroup_revisions_agree_witness:
  "length (filter (isNodeInGroup (mkNode ''c1'' ''text'' 10 10 5 5 ''a'' (Some ''6'') ''''))
     [mkNode ''g0'' ''group'' 50 50 10 10 '''' None ''Far'',
      mkNode ''g1'' ''group'' 0 0 100 100 '''' None ''Backlog'']) \<le> 1 \<and>
   findNodeGroup_first (mkNode ''c1'' ''text'' 10 10 5 5 ''a'' (Some ''6'') '''')
     [mkNode ''g0'' ''group'' 50 50 10 10 '''' None ''Far'',
      mkNode ''g1'' ''group'' 0 0 100 100 '''' None ''Backlog''] = ''Backlog'' \<and>
   findNodeGroup (mkNode ''c1'' ''text'' 10 10 5 5 ''a'' (Some ''6'') '''')
     [mkNode ''g0'' ''group'' 50 50 10 10 '''' None ''Far'',
      mkNode ''g1'' ''group'' 0 0 100 100 '''' None ''Backlog''] = ''Backlog''"
proof -
  let ?n = "mkNode ''c1'' ''text'' 10 10 5 5 ''a'' (Some ''6'') ''''"
  let ?gs = "[mkNode ''g0'' ''group'' 50 50 10 10 '''' None ''Far'',
      mkNode ''g1'' ''group'' 0 0 100 100 '''' None ''Backlog'']"
  have h: "length (filter (isNodeInGroup ?n) ?gs) \<le> 1" by code_simp
  have f: "filter (isNodeInGroup ?n) ?gs = [mkNode ''g1'' ''group'' 0 0 100 100 '''' None ''Backlog'']"
    by code_simp
  from findNodeGroup_revisions_agree[OF h] f
  have "findNodeGroup_first ?n ?gs = findNodeGroup ?n ?gs \<and> findNodeGroup ?n ?gs = ''Backlog''"
    by (simp add: mkNode_def)
  with h show ?thesis by simp
qed

text \<open>With two containing groups the revisions can differ: the first against the smaller.\<close>

lemma findNodeGroup_revisions_differ_example:
  "findNodeGroup_first (mkNode ''c1'' ''text'' 10 10 5 5 ''a'' (Some ''6'') '''')
     [mkNode ''g1'' ''group'' 0 0 100 100 '''' None ''Outer'',
      mkNode ''g2'' ''group'' 5 5 20 20 '''' None ''Inner''] = ''Outer'' \<and>
   findNodeGroup (mkNode ''c1'' ''text'' 10 10 5 5 ''a'' (Some ''6'') '''')
     [mkNode ''g1'' ''group'' 0 0 100 100 '''' None ''Outer'',
      mkNode ''g2'' ''group'' 5 5 20 20 '''' None ''Inner''] = ''Inner''"
  by code_simp

section \<open>Grouping the cards\<close>

lemma map_has_tabulate: "map_has (map (\<lambda>k. (k, g k)) ks) k \<longleftrightarrow> k \<in> set ks"
  by (induction ks) (auto simp: map_has_def)

lemma map_get_tabulate:
  "map_get (map (\<lambda>k. (k, g k)) ks) k = (if k \<in> set ks then Some (g k) else None)"
  by (induction ks) (auto simp: map_get_def)

lemma map_set_tabulate:
  "map_set (map (\<lambda>k. (k, g k)) ks) k v =
     map (\<lambda>k'. (k', (g(k := v)) k')) (if k \<in> set ks then ks else ks @ [k])"
  by (auto simp: map_set_def map_has_tabulate)

lemma addCard_tabulate:
  "addCard groups (map (\<lambda>k. (k, g k)) ks) c =
     (let k = findNodeGroup c groups in
      map (\<lambda>k'. (k', (g(k := (if k \<in> set ks then g k else []) @ [c])) k'))
        (if k \<in> set ks then ks else ks @ [k]))"
proof (cases "findNodeGroup c groups \<in> set ks")
  case True
  then show ?thesis
    by (simp add: addCard_def Let_def map_has_tabulate map_get_tabulate map_set_tabulate)
next
  case False
  have "map_set (map (\<lambda>k. (k, g k)) ks) (findNodeGroup c groups) [] =
        map (\<lambda>k'. (k', (g(findNodeGroup c groups := [])) k')) (ks @ [findNodeGroup c groups])"
    using False by (simp add: map_set_tabulate)
  then show ?thesis using False
    by (simp add: addCard_def Let_def map_has_tabulate map_get_tabulate map_set_tabulate
          del: map_append)
qed

lemma groupCards_closed:
  "groupCards cs groups =
     map (\<lambda>k. (k, filter (\<lambda>c. findNodeGroup c groups = k) cs))
       (rev (remdups (rev (map (\<lambda>c. findNodeGroup c groups) cs))))"
proof (induction cs rule: rev_induct)
  case Nil
  show ?case by (simp add: groupCards_def)
next
  case (snoc c cs)
  have "groupCards (cs @ [c]) groups = addCard groups (groupCards cs groups) c"
    by (simp add: groupCards_def)
  also have "\<dots> = addCard groups (map (\<lambda>k. (k, filter (\<lambda>c. findNodeGroup c groups = k) cs))
       (rev (remdups (rev (map (\<lambda>c. findNodeGroup c groups) cs))))) c"
    by (simp only: snoc.IH)
  also have "\<dots> = map (\<lambda>k. (k, filter (\<lambda>c. findNodeGroup c groups = k) (cs @ [c])))
       (rev (remdups (rev (map (\<lambda>c. findNodeGroup c groups) (cs @ [c])))))"
  proof (cases "findNodeGroup c groups \<in> set (map (\<lambda>c. findNodeGroup c groups) cs)")
    case True
    then show ?thesis by (simp add: addCard_tabulate Let_def del: set_map)
  next
    case False
    then have "\<forall>x\<in>set cs. findNodeGroup x groups \<noteq> findNodeGroup c groups"
      using image_iff by fastforce
    then have "filter (\<lambda>c'. findNodeGroup c' groups = findNodeGroup c groups) cs = []"
      by (simp add: filter_empty_conv)
    with False show ?thesis by (simp add: addCard_tabulate Let_def del: set_map)
  qed
  finally show ?case .
qed

lemma sum_list_single:
  "distinct ks \<Longrightarrow>
   (\<Sum>k\<leftarrow>ks. if a = k then {#c#} else {#}) = (if a \<in> set ks then {#c#} else {#})"
  by (induction ks) auto

lemma mset_concat_filters:
  "distinct ks \<Longrightarrow> f ` set cs \<subseteq> set ks \<Longrightarrow>
   mset (concat (map (\<lambda>k. filter (\<lambda>c. f c = k) cs) ks)) = mset cs"
proof (induction cs)
  case Nil
  show ?case by (induction ks) auto
next
  case (Cons c cs)
  have pw: "\<And>k. mset (filter (\<lambda>c. f c = k) (c # cs)) =
              (if f c = k then {#c#} else {#}) + mset (filter (\<lambda>c. f c = k) cs)"
    by simp
  have "mset (concat (map (\<lambda>k. filter (\<lambda>c. f c = k) (c # cs)) ks)) =
        (\<Sum>k\<leftarrow>ks. mset (filter (\<lambda>c. f c = k) (c # cs)))"
    by (simp add: mset_concat comp_def del: filter.simps)
  also have "\<dots> =
        (\<Sum>k\<leftarrow>ks. (if f c = k then {#c#} else {#}) + mset (filter (\<lambda>c. f c = k) cs))"
    by (simp only: pw)
  also have "\<dots> = (\<Sum>k\<leftarrow>ks. if f c = k then {#c#} else {#}) +
                   (\<Sum>k\<leftarrow>ks. mset (filter (\<lambda>c. f c = k) cs))"
    by (simp add: sum_list_addf)
  also have "(\<Sum>k\<leftarrow>ks. mset (filter (\<lambda>c. f c = k) cs)) =
             mset (concat (map (\<lambda>k. filter (\<lambda>c. f c = k) cs) ks))"
    by (simp add: mset_concat comp_def)
  also have "\<dots> = mset cs" using Cons by simp
  also have "(\<Sum>k\<leftarrow>ks. if f c = k then {#c#} else {#}) = {#c#}"
    using Cons.prems by (simp add: sum_list_single)
  finally show ?case by simp
qed

text \<open>
  C8. The map built from the blue cards lists the group names in the order of their
  first occurrence among the names resolved for the cards (the order in which cards are
  first assigned to them), each name once; the list under a name is the cards resolved
  to that name, in input order; and all the lists together hold every card exactly as
  often as the input does, so each card is in exactly one list.
\<close>

theorem groupCards_order:
  "groupCards cards groups =
     map (\<lambda>k. (k, filter (\<lambda>c. findNodeGroup c groups = k) cards))
       (rev (remdups (rev (map (\<lambda>c. findNodeGroup c groups) cards)))) \<and>
   distinct (map fst (groupCards cards groups)) \<and>
   mset (concat (map snd (groupCards cards groups))) = mset cards"
proof -
  let ?ks = "rev (remdups (rev (map (\<lambda>c. findNodeGroup c groups) cards)))"
  have d: "distinct ?ks" by simp
  have s: "(\<lambda>c. findNodeGroup c groups) ` set cards \<subseteq> set ?ks" by simp
  have "mset (concat (map snd (groupCards cards groups))) =
        mset (concat (map (\<lambda>k. filter (\<lambda>c. findNodeGroup c groups = k) cards) ?ks))"
    by (simp add: groupCards_closed comp_def)
  also have "\<dots> = mset cards" using d s by (rule mset_concat_filters)
  finally have m: "mset (concat (map snd (groupCards cards groups))) = mset cards" .
  have "map fst (groupCards cards groups) = ?ks" by (simp add: groupCards_closed comp_def)
  with d have "distinct (map fst (groupCards cards groups))" by simp
  with m show ?thesis using groupCards_closed by blast
qed

theorem groupCards_order_witness:
  "groupCards [exCard1, exCard2] [exGroup] =
     [(''Backlog'', [exCard1]), (''Uncategorized'', [exCard2])]"
proof -
  have n1: "findNodeGroup exCard1 [exGroup] = ''Backlog''"
    by code_simp
  have n2: "findNodeGroup exCard2 [exGroup] = ''Uncategorized''"
    by code_simp
  from groupCards_order[of "[exCard1, exCard2]" "[exGroup]"] show ?thesis
    by (simp add: n1 n2)
qed

section \<open>The entry line of a card\<close>

lemma split_lines_no_newline: "CHR ''\<newline>'' \<notin> set s \<Longrightarrow> split_lines s = [s]"
  by (induction s) auto

lemma replace_newlines_no_newline: "CHR ''\<newline>'' \<notin> set (replace_newlines s)"
  by (induction s) (auto simp: replace_newlines_def)

lemma replace_newlines_id: "CHR ''\<newline>'' \<notin> set s \<Longrightarrow> replace_newlines s = s"
  by (induction s) (auto simp: replace_newlines_def)

lemma cardLine_no_newline: "CHR ''\<newline>'' \<notin> set (cardLine c)"
  using replace_newlines_no_newline[of "node_text c"] by (simp add: cardLine_def)

text \<open>
  C7. The entry of a card is "- [ ] " followed by the body text in which every line break
  is replaced by "<br>": a body without line break is kept as it is, a line break between
  two parts becomes "<br>" between their replacements. The entry holds no line break, so
  it is one line of the output. The body "line1\nline2" gives "- [ ] line1<br>line2".
\<close>

theorem cardLine_one_line:
  "cardLine crd = ''- [ ] '' @ replace_newlines (node_text crd) \<and>
   replace_newlines (a @ ''\<newline>'' @ b) = replace_newlines a @ ''<br>'' @ replace_newlines b \<and>
   (CHR ''\<newline>'' \<notin> set t \<longrightarrow> replace_newlines t = t) \<and>
   CHR ''\<newline>'' \<notin> set (cardLine crd) \<and>
   split_lines (cardLine crd) = [cardLine crd] \<and>
   cardLine (blueCard ''line1\<newline>line2'') = ''- [ ] line1<br>line2''"
proof -
  have 1: "replace_newlines (a @ ''\<newline>'' @ b) =
           replace_newlines a @ ''<br>'' @ replace_newlines b"
    by (simp add: replace_newlines_def)
  have 2: "cardLine (blueCard ''line1\<newline>line2'') = ''- [ ] line1<br>line2''"
    by (simp add: cardLine_def replace_newlines_def blueCard_def mkNode_def)
  show ?thesis
    using 1 2 cardLine_no_newline[of crd] split_lines_no_newline[OF cardLine_no_newline[of crd]]
      replace_newlines_id[of t]
    by (simp add: cardLine_def)
qed

theorem cardLine_one_line_witness:
  "CHR ''\<newline>'' \<notin> set ''plain text'' \<and>
   replace_newlines ''plain text'' = ''plain text'' \<and>
   cardLine (blueCard ''a\<newline>b\<newline>'') = ''- [ ] a<br>b<br>'' \<and>
   split_lines (cardLine (blueCard ''a\<newline>b\<newline>'')) = [''- [ ] a<br>b<br>'']"
proof -
  have h: "CHR ''\<newline>'' \<notin> set ''plain text''" by simp
  have v: "cardLine (blueCard ''a\<newline>b\<newline>'') = ''- [ ] a<br>b<br>''"
    by (simp add: cardLine_def replace_newlines_def blueCard_def mkNode_def)
  from cardLine_one_line[of "blueCard ''a\<newline>b\<newline>''" "[]" "[]" "''plain text''"]
  have r: "CHR ''\<newline>'' \<notin> set ''plain text'' \<longrightarrow> replace_newlines ''plain text'' = ''plain text''"
    and sp: "split_lines (cardLine (blueCard ''a\<newline>b\<newline>'')) =
             [cardLine (blueCard ''a\<newline>b\<newline>'')]"
    by blast+
  from r h have r': "replace_newlines ''plain text'' = ''plain text''" by blast
  from sp have sp': "split_lines (cardLine (blueCard ''a\<newline>b\<newline>'')) = [''- [ ] a<br>b<br>'']"
    by (simp only: v)
  from h r' v sp' show ?thesis by blast
qed

section \<open>The canvas after archiving\<close>

text \<open>
  C9. When the command archives, the canvas it writes is the input canvas with the node
  list replaced by its nodes that are not blue text cards: those nodes are unchanged and
  in their order, the nodes removed are exactly the blue text cards, and the edges and
  the metadata are those of the input. When there is no blue card nothing is written,
  and the canvas has no node to remove.
\<close>

theorem archiveBlueCards_canvas:
  "(archiveBlueCards canvasData basename parent vault = Archived path content canvas' \<longrightarrow>
      canvas' = canvasData\<lparr>nodes :=
        filter (\<lambda>node. \<not> (node_type node = ''text'' \<and> node_color node = Some ''6''))
          (nodes canvasData)\<rparr> \<and>
      subseq (nodes canvas') (nodes canvasData) \<and>
      mset (nodes canvasData) = mset (nodes canvas') +
        mset (filter (\<lambda>node. node_type node = ''text'' \<and> node_color node = Some ''6'')
               (nodes canvasData)) \<and>
      edges canvas' = edges canvasData \<and>
      metadata canvas' = metadata canvasData) \<and>
   (archiveBlueCards canvasData basename parent vault = NoBlueCards \<longrightarrow>
      filter (\<lambda>node. \<not> (node_type node = ''text'' \<and> node_color node = Some ''6''))
        (nodes canvasData) = nodes canvasData)"
proof -
  let ?blue = "\<lambda>node. node_type node = ''text'' \<and> node_color node = Some ''6''"
  have a: "canvas' = canvasData\<lparr>nodes := filter (\<lambda>node. \<not> ?blue node) (nodes canvasData)\<rparr>"
    if "archiveBlueCards canvasData basename parent vault = Archived path content canvas'"
    using that by (auto simp: archiveBlueCards_def Let_def split: if_splits option.splits)
  have b: "filter (\<lambda>node. \<not> ?blue node) (nodes canvasData) = nodes canvasData"
    if "archiveBlueCards canvasData basename parent vault = NoBlueCards"
  proof -
    from that have "filter ?blue (nodes canvasData) = []"
      by (auto simp: archiveBlueCards_def Let_def split: if_splits option.splits)
    then show ?thesis by (simp add: filter_empty_conv)
  qed
  have c: "mset (nodes canvasData) =
        mset (filter (\<lambda>node. \<not> ?blue node) (nodes canvasData)) +
        mset (filter ?blue (nodes canvasData))"
    by (induction "nodes canvasData") auto
  show ?thesis using a b c by auto
qed

theorem archiveBlueCards_canvas_witness:
  "archiveBlueCards exCanvas ''board'' (Some ''folder'') (\<lambda>p. None) =
     Archived ''folder/board-archive.md''
       (header @ ''\<newline>\<newline>## Backlog\<newline>\<newline>- [ ] first\<newline>\<newline>## Uncategorized\<newline>\<newline>- [ ] second'')
       (exCanvas\<lparr>nodes := [exGroup, exOther]\<rparr>) \<and>
   subseq [exGroup, exOther] (nodes exCanvas) \<and>
   edges (exCanvas\<lparr>nodes := [exGroup, exOther]\<rparr>) = edges exCanvas \<and>
   metadata (exCanvas\<lparr>nodes := [exGroup, exOther]\<rparr>) = metadata exCanvas \<and>
   archiveBlueCards (exCanvas\<lparr>nodes := [exGroup, exOther]\<rparr>) ''board'' (Some ''folder'')
     (\<lambda>p. None) = NoBlueCards \<and>
   filter (\<lambda>node. \<not> (node_type node = ''text'' \<and> node_color node = Some ''6''))
     [exGroup, exOther] = [exGroup, exOther]"
proof -
  have h: "archiveBlueCards exCanvas ''board'' (Some ''folder'') (\<lambda>p. None) =
     Archived ''folder/board-archive.md''
       (header @ ''\<newline>\<newline>## Backlog\<newline>\<newline>- [ ] first\<newline>\<newline>## Uncategorized\<newline>\<newline>- [ ] second'')
       (exCanvas\<lparr>nodes := [exGroup, exOther]\<rparr>)"
    by code_simp
  have n: "archiveBlueCards (exCanvas\<lparr>nodes := [exGroup, exOther]\<rparr>) ''board''
             (Some ''folder'') (\<lambda>p. None) = NoBlueCards"
    by code_simp
  from archiveBlueCards_canvas[of exCanvas "''board''" "Some ''folder''" "\<lambda>p. None"
      "''folder/board-archive.md''"
      "header @ ''\<newline>\<newline>## Backlog\<newline>\<newline>- [ ] first\<newline>\<newline>## Uncategorized\<newline>\<newline>- [ ] second''"
      "exCanvas\<lparr>nodes := [exGroup, exOther]\<rparr>"] h
  have a: "subseq (nodes (exCanvas\<lparr>nodes := [exGroup, exOther]\<rparr>)) (nodes exCanvas)"
    and b: "edges (exCanvas\<lparr>nodes := [exGroup, exOther]\<rparr>) = edges exCanvas"
    and c: "metadata (exCanvas\<lparr>nodes := [exGroup, exOther]\<rparr>) = metadata exCanvas"
    by blast+
  from archiveBlueCards_canvas[of "exCanvas\<lparr>nodes := [exGroup, exOther]\<rparr>" "''board''"
      "Some ''folder''" "\<lambda>p. None"] n
  have d: "filter (\<lambda>node. \<not> (node_type node = ''text'' \<and> node_color node = Some ''6''))
     (nodes (exCanvas\<lparr>nodes := [exGroup, exOther]\<rparr>)) =
     nodes (exCanvas\<lparr>nodes := [exGroup, exOther]\<rparr>)"
    by blast
  from a have a': "subseq [exGroup, exOther] (nodes exCanvas)" by simp
  from d have d': "filter (\<lambda>node. \<not> (node_type node = ''text'' \<and> node_color node = Some ''6''))
     [exGroup, exOther] = [exGroup, exOther]" by simp
  from h a' b c n d' show ?thesis by blast
qed

section \<open>What the walk does\<close>

lemma walk_step_heading:
  "isHeading (contentLines s ! i) \<Longrightarrow>
   walk_step i s = s\<lparr>currentGroup := sectionName (contentLines s ! i),
      insertIndex := (if map_has (groupedCards s) (sectionName (contentLines s ! i))
                      then int i else insertIndex s)\<rparr>"
  by (simp add: walk_step_def Let_def)

lemma walk_step_inert:
  "\<not> isHeading (contentLines s ! i) \<Longrightarrow> Suc i \<noteq> length (contentLines s) \<Longrightarrow>
   walk_step i s = s"
  by (auto simp: walk_step_def Let_def)

lemma scan_inv_step:
  assumes "scan_inv L m k s" and "isHeading (L ! k) \<or> Suc k \<noteq> length L"
  shows "scan_inv L m (Suc k) (walk_step k s)"
proof (cases "isHeading (L ! k)")
  case True
  have cl: "contentLines s = L" and gc: "groupedCards s = m" using assms(1) by (simp_all add: scan_inv_def)
  have A: "insertIndex s = - 1 \<or> (\<exists>j<k. insertIndex s = int j \<and> isHeading (L ! j))"
    using assms(1) by (simp add: scan_inv_def)
  have st: "walk_step k s = s\<lparr>currentGroup := sectionName (L ! k),
      insertIndex := (if map_has m (sectionName (L ! k)) then int k else insertIndex s)\<rparr>"
    using walk_step_heading[of s k] True cl gc by simp
  show ?thesis
  proof (cases "map_has m (sectionName (L ! k))")
    case h: True
    have "\<exists>j<Suc k. int k = int j \<and> isHeading (L ! j) \<and> sectionName (L ! j) = sectionName (L ! k) \<and>
           (\<forall>i. j < i \<and> i < Suc k \<longrightarrow> \<not> isHeading (L ! i))"
      using True by (intro exI[of _ k]) auto
    then show ?thesis unfolding st scan_inv_def using cl gc h by auto
  next
    case h: False
    have "insertIndex s = - 1 \<or> (\<exists>j<Suc k. insertIndex s = int j \<and> isHeading (L ! j))"
      using A less_Suc_eq by auto
    then show ?thesis unfolding st scan_inv_def using cl gc h by simp
  qed
next
  case False
  with assms(2) have ne: "Suc k \<noteq> length L" by simp
  have cl: "contentLines s = L" using assms(1) by (simp add: scan_inv_def)
  have st: "walk_step k s = s" using walk_step_inert[of s k] False ne cl by simp
  have A: "insertIndex s = - 1 \<or> (\<exists>j<Suc k. insertIndex s = int j \<and> isHeading (L ! j))"
    using assms(1) less_Suc_eq unfolding scan_inv_def by auto
  have B: "insertIndex s = - 1 \<or>
        (\<exists>j<Suc k. insertIndex s = int j \<and> isHeading (L ! j) \<and> sectionName (L ! j) = currentGroup s \<and>
           (\<forall>i. j < i \<and> i < Suc k \<longrightarrow> \<not> isHeading (L ! i)))" if "map_has m (currentGroup s)"
  proof -
    from that assms(1) have "insertIndex s = - 1 \<or>
        (\<exists>j<k. insertIndex s = int j \<and> isHeading (L ! j) \<and> sectionName (L ! j) = currentGroup s \<and>
           (\<forall>i. j < i \<and> i < k \<longrightarrow> \<not> isHeading (L ! i)))" by (simp add: scan_inv_def)
    then show ?thesis
    proof
      assume "insertIndex s = - 1" then show ?thesis by simp
    next
      assume "\<exists>j<k. insertIndex s = int j \<and> isHeading (L ! j) \<and> sectionName (L ! j) = currentGroup s \<and>
           (\<forall>i. j < i \<and> i < k \<longrightarrow> \<not> isHeading (L ! i))"
      then obtain j where j: "j < k" "insertIndex s = int j" "isHeading (L ! j)"
        "sectionName (L ! j) = currentGroup s" "\<forall>i. j < i \<and> i < k \<longrightarrow> \<not> isHeading (L ! i)" by blast
      have "\<forall>i. j < i \<and> i < Suc k \<longrightarrow> \<not> isHeading (L ! i)"
        using j(5) False less_Suc_eq by auto
      with j have "\<exists>j<Suc k. insertIndex s = int j \<and> isHeading (L ! j) \<and> sectionName (L ! j) = currentGroup s \<and>
           (\<forall>i. j < i \<and> i < Suc k \<longrightarrow> \<not> isHeading (L ! i))" by (intro exI[of _ j]) auto
      then show ?thesis by blast
    qed
  qed
  show ?thesis unfolding st scan_inv_def using assms(1) A B by (auto simp: scan_inv_def)
qed

lemma scan_inv_fold:
  "k < length L \<Longrightarrow>
   scan_inv L m k (fold walk_step [0..<k]
     \<lparr>contentLines = L, currentGroup = '''', insertIndex = - 1, groupedCards = m\<rparr>)"
proof (induction k)
  case 0
  show ?case by (simp add: scan_inv_def)
next
  case (Suc k)
  then have "scan_inv L m k (fold walk_step [0..<k]
     \<lparr>contentLines = L, currentGroup = '''', insertIndex = - 1, groupedCards = m\<rparr>)" by simp
  moreover have "Suc k \<noteq> length L" using Suc.prems by simp
  ultimately show ?case using scan_inv_step[of L m k] by simp
qed

lemma splice_insert:
  "j < length xs \<Longrightarrow> splice xs (int j + 1) items = take (Suc j) xs @ items @ drop (Suc j) xs"
  by (simp add: splice_def Let_def min_def nat_add_distrib)

lemma walk_unfold_last:
  "L \<noteq> [] \<Longrightarrow>
   walk L m = walk_step (length L - 1) (fold walk_step [0..<length L - 1]
     \<lparr>contentLines = L, currentGroup = '''', insertIndex = - 1, groupedCards = m\<rparr>)"
proof -
  assume "L \<noteq> []"
  then obtain n where n: "length L = Suc n" by (cases L) auto
  show ?thesis by (simp add: walk_def n)
qed

lemma walk_result:
  assumes "L \<noteq> []"
  shows "(contentLines (walk L m) = L \<and> groupedCards (walk L m) = m) \<or>
         (\<exists>j cards. Suc j < length L \<and> isHeading (L ! j) \<and>
            (\<forall>i. j < i \<and> i < length L \<longrightarrow> \<not> isHeading (L ! i)) \<and>
            map_of m (sectionName (L ! j)) = Some cards \<and>
            contentLines (walk L m) = take (Suc j) L @ map cardLine cards @ drop (Suc j) L \<and>
            groupedCards (walk L m) = map_delete m (sectionName (L ! j)))"
proof -
  from assms obtain n where n: "length L = Suc n" by (cases L) auto
  define s where "s = fold walk_step [0..<n]
     \<lparr>contentLines = L, currentGroup = '''', insertIndex = - 1, groupedCards = m\<rparr>"
  have w: "walk L m = walk_step n s" using walk_unfold_last[OF assms, of m] by (simp add: n s_def)
  have inv: "scan_inv L m n s" unfolding s_def using scan_inv_fold[of n L m] n by simp
  then have cl: "contentLines s = L" and gc: "groupedCards s = m" by (simp_all add: scan_inv_def)
  show ?thesis
  proof (cases "isHeading (L ! n)")
    case True
    then have "contentLines (walk_step n s) = L \<and> groupedCards (walk_step n s) = m"
      using walk_step_heading[of s n] cl gc by simp
    then show ?thesis by (simp add: w)
  next
    case nh: False
    show ?thesis
    proof (cases "insertIndex s \<noteq> - 1 \<and> map_has m (currentGroup s)")
      case False
      then have "contentLines (walk_step n s) = L \<and> groupedCards (walk_step n s) = m"
        using nh cl gc by (auto simp: walk_step_def Let_def n)
      then show ?thesis by (simp add: w)
    next
      case True
      then obtain cards where c: "map_of m (currentGroup s) = Some cards"
        by (auto simp: map_has_def)
      from True inv obtain j where j: "j < n" "insertIndex s = int j" "isHeading (L ! j)"
        "sectionName (L ! j) = currentGroup s" "\<forall>i. j < i \<and> i < n \<longrightarrow> \<not> isHeading (L ! i)"
        by (auto simp: scan_inv_def)
      have st: "walk_step n s = s\<lparr>contentLines := splice L (int j + 1) (map cardLine cards),
                     groupedCards := map_delete m (currentGroup s),
                     insertIndex := - 1, currentGroup := ''''\<rparr>"
        using nh True c cl gc j(2) by (simp add: walk_step_def Let_def n map_get_def)
      have sp: "splice L (int j + 1) (map cardLine cards) =
                take (Suc j) L @ map cardLine cards @ drop (Suc j) L"
        using j(1) n by (simp add: splice_insert)
      have nb: "\<forall>i. j < i \<and> i < length L \<longrightarrow> \<not> isHeading (L ! i)"
        using j(5) nh n less_Suc_eq by auto
      have "Suc j < length L \<and> isHeading (L ! j) \<and>
            (\<forall>i. j < i \<and> i < length L \<longrightarrow> \<not> isHeading (L ! i)) \<and>
            map_of m (sectionName (L ! j)) = Some cards \<and>
            contentLines (walk L m) = take (Suc j) L @ map cardLine cards @ drop (Suc j) L \<and>
            groupedCards (walk L m) = map_delete m (sectionName (L ! j))"
        using j(1) j(3) j(4) nb c n by (simp add: w st sp)
      then show ?thesis by blast
    qed
  qed
qed

section \<open>Lines and text\<close>

lemma split_lines_nonempty: "split_lines s \<noteq> []"
  by (induction s) (auto split: list.splits)

lemma join_split_lines: "join_lines (split_lines s) = s"
proof (induction s)
  case Nil
  show ?case by simp
next
  case (Cons c cs)
  obtain l ls where sp: "split_lines cs = l # ls"
    using split_lines_nonempty[of cs] by (cases "split_lines cs") auto
  show ?case
  proof (cases "c = CHR ''\<newline>''")
    case True
    with Cons sp show ?thesis by simp
  next
    case False
    have "join_lines ((c # l) # ls) = c # join_lines (l # ls)" by (cases ls) simp_all
    with Cons sp False show ?thesis by simp
  qed
qed

lemma split_lines_first:
  "CHR ''\<newline>'' \<notin> set l \<Longrightarrow> split_lines (l @ CHR ''\<newline>'' # rest) = l # split_lines rest"
  by (induction l) auto

lemma split_lines_header: "split_lines (header @ rest) = headerLines @ split_lines rest"
proof -
  have "header @ rest = ''---'' @ CHR ''\<newline>'' # [] @ CHR ''\<newline>'' #
      ''kanban-plugin: basic'' @ CHR ''\<newline>'' # [] @ CHR ''\<newline>'' #
      ''---'' @ CHR ''\<newline>'' # [] @ CHR ''\<newline>'' # rest"
    by (simp add: header_def)
  then show ?thesis
    by (simp only: split_lines_first headerLines_def) (simp add: split_lines_first)
qed

lemma join_header_lines: "ys \<noteq> [] \<Longrightarrow> join_lines (headerLines @ ys) = header @ join_lines ys"
  by (cases ys) (simp_all add: headerLines_def header_def)

lemma headerLines_no_heading: "\<forall>l\<in>set headerLines. \<not> isHeading l"
  by (simp add: headerLines_def startsWith_def)

lemma initialContent_header: "\<exists>rest. initialContent existing = header @ rest"
proof (cases existing)
  case None
  then show ?thesis by (simp add: initialContent_def)
next
  case (Some d)
  show ?thesis
  proof (cases "startsWith d header")
    case True
    then have "d = header @ drop (length header) d"
      by (metis append_take_drop_id startsWith_def)
    with True Some show ?thesis by (auto simp: initialContent_def)
  next
    case False
    with Some show ?thesis by (simp add: initialContent_def)
  qed
qed

lemma pushGroup_closed:
  "pushGroup ls (g, cards) = ls @ (''\<newline>## '' @ g @ ''\<newline>'') # map cardLine cards"
proof -
  have "\<And>init. foldl (\<lambda>ls' crd. ls' @ [cardLine crd]) init cards = init @ map cardLine cards"
    by (induction cards rule: rev_induct) simp_all
  then show ?thesis by (simp add: pushGroup_def)
qed

lemma appendGroups_closed:
  "appendGroups ls m =
     ls @ concat (map (\<lambda>(g, cards). (''\<newline>## '' @ g @ ''\<newline>'') # map cardLine cards) m)"
proof (induction m rule: rev_induct)
  case Nil
  show ?case by (simp add: appendGroups_def)
next
  case (snoc e m)
  obtain g cards where e: "e = (g, cards)" by (cases e)
  have "appendGroups ls (m @ [e]) = pushGroup (appendGroups ls m) e"
    by (simp add: appendGroups_def)
  then show ?case by (simp add: snoc e pushGroup_closed)
qed

lemma walk_keeps_prefix:
  assumes "\<forall>l\<in>set P. \<not> isHeading l" and "R \<noteq> []"
  shows "\<exists>X. X \<noteq> [] \<and> contentLines (walk (P @ R) m) = P @ X"
proof -
  have ne: "P @ R \<noteq> []" using assms(2) by simp
  from walk_result[OF ne, of m] show ?thesis
  proof
    assume "contentLines (walk (P @ R) m) = P @ R \<and> groupedCards (walk (P @ R) m) = m"
    then show ?thesis using assms(2) by blast
  next
    assume "\<exists>j cards. Suc j < length (P @ R) \<and> isHeading ((P @ R) ! j) \<and>
            (\<forall>i. j < i \<and> i < length (P @ R) \<longrightarrow> \<not> isHeading ((P @ R) ! i)) \<and>
            map_of m (sectionName ((P @ R) ! j)) = Some cards \<and>
            contentLines (walk (P @ R) m) =
              take (Suc j) (P @ R) @ map cardLine cards @ drop (Suc j) (P @ R) \<and>
            groupedCards (walk (P @ R) m) = map_delete m (sectionName ((P @ R) ! j))"
    then obtain j cards where j: "Suc j < length (P @ R)" "isHeading ((P @ R) ! j)"
      "contentLines (walk (P @ R) m) =
         take (Suc j) (P @ R) @ map cardLine cards @ drop (Suc j) (P @ R)" by blast
    have "\<not> j < length P"
    proof
      assume "j < length P"
      then have "(P @ R) ! j \<in> set P" by (simp add: nth_append)
      with assms(1) j(2) show False by blast
    qed
    then have "take (Suc j) (P @ R) = P @ take (Suc j - length P) R" by simp
    then have "contentLines (walk (P @ R) m) =
       P @ (take (Suc j - length P) R @ map cardLine cards @ drop (Suc j) (P @ R))"
      using j(3) by simp
    moreover have "drop (Suc j) (P @ R) \<noteq> []" using j(1) by (simp del: drop_append)
    ultimately show ?thesis by blast
  qed
qed

lemma walk_subseq: "L \<noteq> [] \<Longrightarrow> subseq L (contentLines (walk L m))"
proof -
  assume ne: "L \<noteq> []"
  from walk_result[OF ne, of m] show ?thesis
  proof
    assume "contentLines (walk L m) = L \<and> groupedCards (walk L m) = m"
    then show ?thesis by simp
  next
    assume "\<exists>j cards. Suc j < length L \<and> isHeading (L ! j) \<and>
            (\<forall>i. j < i \<and> i < length L \<longrightarrow> \<not> isHeading (L ! i)) \<and>
            map_of m (sectionName (L ! j)) = Some cards \<and>
            contentLines (walk L m) = take (Suc j) L @ map cardLine cards @ drop (Suc j) L \<and>
            groupedCards (walk L m) = map_delete m (sectionName (L ! j))"
    then obtain j cards where
      c: "contentLines (walk L m) = take (Suc j) L @ map cardLine cards @ drop (Suc j) L"
      by blast
    have "subseq (take (Suc j) L @ drop (Suc j) L)
            (take (Suc j) L @ map cardLine cards @ drop (Suc j) L)"
      by (intro list_emb_append_mono subseq_order.order_refl list_emb_append2)
    then show ?thesis by (simp add: c)
  qed
qed

text \<open>
  A group stays in the map unless the last heading line of the file carries its name.
\<close>

lemma walk_keeps_group_not_last:
  assumes "L \<noteq> []" and "(g, es) \<in> set m"
    and "\<forall>j<length L. isHeading (L ! j) \<and> (\<forall>i. j < i \<and> i < length L \<longrightarrow> \<not> isHeading (L ! i))
           \<longrightarrow> sectionName (L ! j) \<noteq> g"
  shows "(g, es) \<in> set (groupedCards (walk L m))"
proof -
  from walk_result[OF assms(1), of m] show ?thesis
  proof
    assume "contentLines (walk L m) = L \<and> groupedCards (walk L m) = m"
    then show ?thesis using assms(2) by simp
  next
    assume "\<exists>j cards. Suc j < length L \<and> isHeading (L ! j) \<and>
            (\<forall>i. j < i \<and> i < length L \<longrightarrow> \<not> isHeading (L ! i)) \<and>
            map_of m (sectionName (L ! j)) = Some cards \<and>
            contentLines (walk L m) = take (Suc j) L @ map cardLine cards @ drop (Suc j) L \<and>
            groupedCards (walk L m) = map_delete m (sectionName (L ! j))"
    then obtain j where j: "Suc j < length L" "isHeading (L ! j)"
      "\<forall>i. j < i \<and> i < length L \<longrightarrow> \<not> isHeading (L ! i)"
      "groupedCards (walk L m) = map_delete m (sectionName (L ! j))" by blast
    have "j < length L" using j(1) by simp
    with assms(3) j(2) j(3) have "sectionName (L ! j) \<noteq> g" by blast
    then show ?thesis using assms(2) by (auto simp: j(4) map_delete_def)
  qed
qed

lemma walk_keeps_absent:
  assumes "L \<noteq> []" and "(g, es) \<in> set m"
    and "\<forall>l\<in>set L. isHeading l \<longrightarrow> sectionName l \<noteq> g"
  shows "(g, es) \<in> set (groupedCards (walk L m))"
proof -
  have "\<forall>j<length L. isHeading (L ! j) \<and> (\<forall>i. j < i \<and> i < length L \<longrightarrow> \<not> isHeading (L ! i))
           \<longrightarrow> sectionName (L ! j) \<noteq> g"
    using assms(3) by simp
  with assms(1) assms(2) show ?thesis by (rule walk_keeps_group_not_last)
qed

lemma merge_empty_map:
  assumes "startsWith d header"
  shows "merge (Some d) [] = d"
proof -
  have ic: "initialContent (Some d) = d" using assms by (simp add: initialContent_def)
  have ne: "split_lines d \<noteq> []" by (rule split_lines_nonempty)
  from walk_result[OF ne, of "[]"]
  have "contentLines (walk (split_lines d) []) = split_lines d \<and>
        groupedCards (walk (split_lines d) []) = []"
    by (auto simp: map_delete_def)
  then show ?thesis
    by (simp add: merge_def mergeLines_def processLines_def ic Let_def appendGroups_closed
        join_split_lines)
qed

lemma merge_starts_with_header: "\<exists>rest. merge existing m = header @ rest"
proof -
  obtain r where r: "initialContent existing = header @ r"
    using initialContent_header by blast
  let ?L = "split_lines (initialContent existing)"
  have L: "?L = headerLines @ split_lines r" by (simp add: r split_lines_header)
  from walk_keeps_prefix[OF headerLines_no_heading split_lines_nonempty, of r m]
  obtain X where X: "X \<noteq> []" "contentLines (walk ?L m) = headerLines @ X"
    unfolding L by blast
  have "mergeLines existing m = headerLines @ (X @
     concat (map (\<lambda>(g, cards). (''\<newline>## '' @ g @ ''\<newline>'') # map cardLine cards)
       (groupedCards (walk ?L m))))"
    by (simp add: mergeLines_def processLines_def Let_def appendGroups_closed X(2))
  then have "merge existing m = header @ join_lines (X @
     concat (map (\<lambda>(g, cards). (''\<newline>## '' @ g @ ''\<newline>'') # map cardLine cards)
       (groupedCards (walk ?L m))))"
    using X(1) by (simp add: merge_def join_header_lines)
  then show ?thesis by blast
qed

lemma join_lines_Cons: "join_lines (x # xs) = x @ concat (map (\<lambda>l. ''\<newline>'' @ l) xs)"
  by (induction xs arbitrary: x) simp_all

lemma join_lines_snoc_list:
  "xs \<noteq> [] \<Longrightarrow> join_lines (xs @ ys) = join_lines xs @ concat (map (\<lambda>l. ''\<newline>'' @ l) ys)"
proof -
  assume "xs \<noteq> []"
  then obtain x xs' where "xs = x # xs'" by (cases xs) auto
  then show ?thesis by (simp add: join_lines_Cons)
qed

lemma initialContent_lines:
  "set (split_lines (initialContent existing)) \<subseteq>
     set headerLines \<union> set (split_lines (case existing of None \<Rightarrow> [] | Some d \<Rightarrow> d))"
proof (cases existing)
  case None
  have "split_lines (header @ []) = headerLines @ split_lines []" by (rule split_lines_header)
  then show ?thesis using None by (simp add: initialContent_def)
next
  case (Some d)
  show ?thesis
  proof (cases "startsWith d header")
    case True
    with Some show ?thesis by (simp add: initialContent_def)
  next
    case False
    with Some show ?thesis by (simp add: initialContent_def split_lines_header)
  qed
qed

section \<open>The walk, exactly\<close>

lemma scan_last_step:
  assumes "scan_last L m k s" and "isHeading (L ! k) \<or> Suc k \<noteq> length L"
  shows "scan_last L m (Suc k) (walk_step k s)"
proof (cases "isHeading (L ! k)")
  case True
  have cl: "contentLines s = L" and gc: "groupedCards s = m"
    using assms(1) by (simp_all add: scan_last_def)
  have st: "walk_step k s = s\<lparr>currentGroup := sectionName (L ! k),
      insertIndex := (if map_has m (sectionName (L ! k)) then int k else insertIndex s)\<rparr>"
    using walk_step_heading[of s k] True cl gc by simp
  have "j = k" if "j < Suc k" "\<forall>i. j < i \<and> i < Suc k \<longrightarrow> \<not> isHeading (L ! i)" for j
  proof (rule ccontr)
    assume "j \<noteq> k"
    with that(1) have "j < k \<and> k < Suc k" by simp
    with that(2) True show False by blast
  qed
  then show ?thesis unfolding st scan_last_def using cl gc by auto
next
  case False
  with assms(2) have ne: "Suc k \<noteq> length L" by simp
  have cl: "contentLines s = L" using assms(1) by (simp add: scan_last_def)
  have st: "walk_step k s = s" using walk_step_inert[of s k] False ne cl by simp
  have "j < k \<and> (\<forall>i. j < i \<and> i < k \<longrightarrow> \<not> isHeading (L ! i))"
    if "j < Suc k" "isHeading (L ! j)" "\<forall>i. j < i \<and> i < Suc k \<longrightarrow> \<not> isHeading (L ! i)" for j
  proof -
    have "j \<noteq> k" using that(2) False by blast
    with that(1) have "j < k" by simp
    moreover have "\<forall>i. j < i \<and> i < k \<longrightarrow> \<not> isHeading (L ! i)" using that(3) by simp
    ultimately show ?thesis by blast
  qed
  then show ?thesis unfolding st using assms(1) unfolding scan_last_def by blast
qed

lemma scan_last_fold:
  "k < length L \<Longrightarrow>
   scan_last L m k (fold walk_step [0..<k]
     \<lparr>contentLines = L, currentGroup = '''', insertIndex = - 1, groupedCards = m\<rparr>)"
proof (induction k)
  case 0
  show ?case by (simp add: scan_last_def)
next
  case (Suc k)
  then have "scan_last L m k (fold walk_step [0..<k]
     \<lparr>contentLines = L, currentGroup = '''', insertIndex = - 1, groupedCards = m\<rparr>)" by simp
  moreover have "Suc k \<noteq> length L" using Suc.prems by simp
  ultimately show ?case using scan_last_step[of L m k] by simp
qed

lemma walk_flush:
  assumes "Suc j < length L" and "isHeading (L ! j)"
    and "\<forall>i. j < i \<and> i < length L \<longrightarrow> \<not> isHeading (L ! i)"
    and "map_of m (sectionName (L ! j)) = Some cards"
  shows "contentLines (walk L m) = take (Suc j) L @ map cardLine cards @ drop (Suc j) L \<and>
         groupedCards (walk L m) = map_delete m (sectionName (L ! j))"
proof -
  have ne: "L \<noteq> []" using assms(1) by auto
  then obtain n where n: "length L = Suc n" by (cases L) auto
  define s where "s = fold walk_step [0..<n]
     \<lparr>contentLines = L, currentGroup = '''', insertIndex = - 1, groupedCards = m\<rparr>"
  have w: "walk L m = walk_step n s" using walk_unfold_last[OF ne, of m] by (simp add: n s_def)
  have inv: "scan_last L m n s" unfolding s_def using scan_last_fold[of n L m] n by simp
  then have cl: "contentLines s = L" and gc: "groupedCards s = m"
    by (simp_all add: scan_last_def)
  have jn: "j < n" using assms(1) n by simp
  have nh: "\<not> isHeading (L ! n)" using assms(3) jn n by simp
  have "\<forall>i. j < i \<and> i < n \<longrightarrow> \<not> isHeading (L ! i)" using assms(3) n by simp
  with inv jn assms(2) have cur: "currentGroup s = sectionName (L ! j)"
    and ins: "map_has m (sectionName (L ! j)) \<longrightarrow> insertIndex s = int j"
    unfolding scan_last_def by blast+
  have has: "map_has m (sectionName (L ! j))" using assms(4) by (simp add: map_has_def)
  with ins have ij: "insertIndex s = int j" by blast
  have st: "walk_step n s = s\<lparr>contentLines := splice L (int j + 1) (map cardLine cards),
                     groupedCards := map_delete m (sectionName (L ! j)),
                     insertIndex := - 1, currentGroup := ''''\<rparr>"
    using nh has assms(4) cl gc ij cur by (simp add: walk_step_def Let_def n map_get_def)
  have sp: "splice L (int j + 1) (map cardLine cards) =
                take (Suc j) L @ map cardLine cards @ drop (Suc j) L"
    using jn n by (simp add: splice_insert)
  show ?thesis by (simp add: w st sp)
qed

lemma walk_no_flush:
  assumes "L \<noteq> []"
    and "\<not> (\<exists>j cards. Suc j < length L \<and> isHeading (L ! j) \<and>
            (\<forall>i. j < i \<and> i < length L \<longrightarrow> \<not> isHeading (L ! i)) \<and>
            map_of m (sectionName (L ! j)) = Some cards)"
  shows "contentLines (walk L m) = L \<and> groupedCards (walk L m) = m"
  using walk_result[OF assms(1), of m] assms(2) by blast

lemma walk_shift:
  assumes "\<forall>l\<in>set P. \<not> isHeading l" and "R \<noteq> []"
  shows "contentLines (walk (P @ R) m) = P @ contentLines (walk R m) \<and>
         groupedCards (walk (P @ R) m) = groupedCards (walk R m)"
proof (cases "\<exists>j cards. Suc j < length R \<and> isHeading (R ! j) \<and>
            (\<forall>i. j < i \<and> i < length R \<longrightarrow> \<not> isHeading (R ! i)) \<and>
            map_of m (sectionName (R ! j)) = Some cards")
  case True
  then obtain j cards where j: "Suc j < length R" "isHeading (R ! j)"
    "\<forall>i. j < i \<and> i < length R \<longrightarrow> \<not> isHeading (R ! i)"
    "map_of m (sectionName (R ! j)) = Some cards" by blast
  let ?j = "length P + j"
  have 1: "Suc ?j < length (P @ R)" using j(1) by simp
  have 2: "(P @ R) ! ?j = R ! j" by (simp add: nth_append)
  have 3: "\<forall>i. ?j < i \<and> i < length (P @ R) \<longrightarrow> \<not> isHeading ((P @ R) ! i)"
  proof (intro allI impI)
    fix i assume i: "?j < i \<and> i < length (P @ R)"
    then have "(P @ R) ! i = R ! (i - length P)" by (simp add: nth_append)
    moreover have "j < i - length P \<and> i - length P < length R" using i by auto
    ultimately show "\<not> isHeading ((P @ R) ! i)" using j(3) by simp
  qed
  from walk_flush[OF 1 _ 3, of m cards] j(2) j(4) 2
  have a: "contentLines (walk (P @ R) m) =
             take (Suc ?j) (P @ R) @ map cardLine cards @ drop (Suc ?j) (P @ R)"
    and b: "groupedCards (walk (P @ R) m) = map_delete m (sectionName (R ! j))" by simp_all
  from walk_flush[OF j(1) j(2) j(3) j(4)]
  have c: "contentLines (walk R m) = take (Suc j) R @ map cardLine cards @ drop (Suc j) R"
    and d: "groupedCards (walk R m) = map_delete m (sectionName (R ! j))" by simp_all
  show ?thesis by (simp add: a b c d)
next
  case False
  from walk_no_flush[OF assms(2) False]
  have r: "contentLines (walk R m) = R" "groupedCards (walk R m) = m" by simp_all
  have "\<not> (\<exists>j cards. Suc j < length (P @ R) \<and> isHeading ((P @ R) ! j) \<and>
            (\<forall>i. j < i \<and> i < length (P @ R) \<longrightarrow> \<not> isHeading ((P @ R) ! i)) \<and>
            map_of m (sectionName ((P @ R) ! j)) = Some cards)"
  proof
    assume "\<exists>j cards. Suc j < length (P @ R) \<and> isHeading ((P @ R) ! j) \<and>
            (\<forall>i. j < i \<and> i < length (P @ R) \<longrightarrow> \<not> isHeading ((P @ R) ! i)) \<and>
            map_of m (sectionName ((P @ R) ! j)) = Some cards"
    then obtain j cards where j: "Suc j < length (P @ R)" "isHeading ((P @ R) ! j)"
      "\<forall>i. j < i \<and> i < length (P @ R) \<longrightarrow> \<not> isHeading ((P @ R) ! i)"
      "map_of m (sectionName ((P @ R) ! j)) = Some cards" by blast
    have ge: "\<not> j < length P"
    proof
      assume "j < length P"
      then have "(P @ R) ! j \<in> set P" by (simp add: nth_append)
      with assms(1) j(2) show False by blast
    qed
    let ?j = "j - length P"
    have e: "(P @ R) ! j = R ! ?j" using ge by (simp add: nth_append)
    have 1: "Suc ?j < length R" using j(1) ge by auto
    have 3: "\<forall>i. ?j < i \<and> i < length R \<longrightarrow> \<not> isHeading (R ! i)"
    proof (intro allI impI)
      fix i assume i: "?j < i \<and> i < length R"
      then have "j < length P + i \<and> length P + i < length (P @ R)" using ge by auto
      with j(3) have "\<not> isHeading ((P @ R) ! (length P + i))" by blast
      then show "\<not> isHeading (R ! i)" by (simp add: nth_append)
    qed
    from 1 j(2) 3 j(4) e False show False by auto
  qed
  from walk_no_flush[OF _ this] assms(2)
  have "contentLines (walk (P @ R) m) = P @ R" "groupedCards (walk (P @ R) m) = m" by simp_all
  with r show ?thesis by simp
qed

lemma processLines_shift:
  assumes "\<forall>l\<in>set P. \<not> isHeading l" and "R \<noteq> []"
  shows "processLines (P @ R) m = P @ processLines R m"
  using walk_shift[OF assms, of m] by (simp add: processLines_def Let_def appendGroups_closed)

lemma processLines_nonempty: "R \<noteq> [] \<Longrightarrow> processLines R m \<noteq> []"
proof -
  assume ne: "R \<noteq> []"
  have "contentLines (walk R m) \<noteq> []" using walk_subseq[OF ne, of m] ne by auto
  then show ?thesis by (simp add: processLines_def Let_def appendGroups_closed)
qed

lemma processLines_empty_map: "R \<noteq> [] \<Longrightarrow> processLines R [] = R"
proof -
  assume ne: "R \<noteq> []"
  from walk_result[OF ne, of "[]"]
  have "contentLines (walk R []) = R \<and> groupedCards (walk R []) = []"
    by (auto simp: map_delete_def)
  then show ?thesis by (simp add: processLines_def Let_def appendGroups_closed)
qed

lemma mergeLines_with_header:
  "mergeLines (Some (header @ r)) m = headerLines @ processLines (split_lines r) m"
proof -
  have "initialContent (Some (header @ r)) = header @ r"
    by (simp add: initialContent_def startsWith_def)
  then show ?thesis
    using processLines_shift[OF headerLines_no_heading split_lines_nonempty, of r m]
    by (simp add: mergeLines_def split_lines_header)
qed

lemma mergeLines_without_header:
  "\<not> startsWith d header \<Longrightarrow>
   mergeLines (Some d) m = headerLines @ processLines (split_lines d) m"
proof -
  assume "\<not> startsWith d header"
  then have "initialContent (Some d) = header @ d" by (simp add: initialContent_def)
  then show ?thesis
    using processLines_shift[OF headerLines_no_heading split_lines_nonempty, of d m]
    by (simp add: mergeLines_def split_lines_header)
qed

lemma mergeLines_absent_file: "mergeLines None m = headerLines @ processLines [''''] m"
proof -
  have "split_lines (header @ []) = headerLines @ split_lines []" by (rule split_lines_header)
  then have "split_lines header = headerLines @ ['''']" by simp
  then show ?thesis
    using processLines_shift[OF headerLines_no_heading, of "['''']" m]
    by (simp add: mergeLines_def initialContent_def)
qed

text \<open>
  Every group the walk leaves in the map is pushed after the lines the walk leaves, as a
  heading element and one element per card.
\<close>

lemma mergeLines_remaining:
  assumes "(g, cards) \<in> set (groupedCards (walk (split_lines (initialContent existing)) m))"
  shows "\<exists>pre post others.
     mergeLines existing m = pre @ (''\<newline>## '' @ g @ ''\<newline>'') # map cardLine cards @ post \<and>
     subseq (split_lines (initialContent existing)) pre \<and>
     set others \<subseteq> set m \<and>
     post = concat (map (\<lambda>(g', cards'). (''\<newline>## '' @ g' @ ''\<newline>'') # map cardLine cards') others) \<and>
     merge existing m =
       join_lines pre @ ''\<newline>\<newline>## '' @ g @ ''\<newline>'' @
       concat (map (\<lambda>c. ''\<newline>'' @ cardLine c) cards) @
       concat (map (\<lambda>l. ''\<newline>'' @ l) post)"
proof -
  let ?L = "split_lines (initialContent existing)"
  let ?sec = "\<lambda>(g', cards'). (''\<newline>## '' @ g' @ ''\<newline>'') # map cardLine cards'"
  have ne: "?L \<noteq> []" by (rule split_lines_nonempty)
  from assms obtain m1 m2 where sp: "groupedCards (walk ?L m) = m1 @ (g, cards) # m2"
    by (meson split_list)
  let ?pre = "contentLines (walk ?L m) @ concat (map ?sec m1)"
  let ?post = "concat (map ?sec m2)"
  have ml: "mergeLines existing m =
      ?pre @ (''\<newline>## '' @ g @ ''\<newline>'') # map cardLine cards @ ?post"
    by (simp add: mergeLines_def processLines_def Let_def appendGroups_closed sp)
  have sub: "subseq ?L ?pre"
    using walk_subseq[OF ne, of m] by (rule subseq_rev_drop_many)
  have "set (groupedCards (walk ?L m)) \<subseteq> set m"
    using walk_result[OF ne, of m] by (auto simp: map_delete_def)
  then have ot: "set m2 \<subseteq> set m" by (auto simp: sp)
  have "contentLines (walk ?L m) \<noteq> []" using walk_subseq[OF ne, of m] ne by auto
  then have pne: "?pre \<noteq> []" by simp
  have "merge existing m =
       join_lines ?pre @ concat (map (\<lambda>l. ''\<newline>'' @ l)
         ((''\<newline>## '' @ g @ ''\<newline>'') # map cardLine cards @ ?post))"
    unfolding merge_def ml using pne by (rule join_lines_snoc_list)
  then have tx: "merge existing m =
       join_lines ?pre @ ''\<newline>\<newline>## '' @ g @ ''\<newline>'' @
       concat (map (\<lambda>c. ''\<newline>'' @ cardLine c) cards) @
       concat (map (\<lambda>l. ''\<newline>'' @ l) ?post)"
    by (simp add: comp_def)
  from ml sub ot tx show ?thesis by blast
qed

lemma map_delete_keys: "fst ` set (map_delete xs k) \<subseteq> fst ` set xs"
  by (auto simp: map_delete_def)

section \<open>Groups without a section in the file\<close>

text \<open>
  C5. Take a group of the map whose name no heading line of the input document carries.
  The lines of the result are: the lines \<open>W\<close> the walk leaves, then one section per group
  the walk leaves in the map, in the order of the map, the section of this group once
  among them. A section is one element "\n## name\n" and one element per card: in the
  text, a line break that ends the line before, an empty line, the heading line, an
  empty line, and one line per card. \<open>W\<close> is the lines of the document (after the header
  step) unchanged, unless the last line is no heading and the last heading carries the
  name of a group of the map: then \<open>W\<close> is those lines with the cards of that other group
  spliced right under that heading, and that group leaves the map. When no heading of
  the document carries the name of any group of the map, the result is exactly the lines
  of the document followed by the sections of all groups of the map.
\<close>

theorem merge_appends_absent_group:
  assumes "(g, cards) \<in> set m" and "distinct (map fst m)"
    and "\<forall>l\<in>set (split_lines (case existing of None \<Rightarrow> [] | Some d \<Rightarrow> d)).
           isHeading l \<longrightarrow> sectionName l \<noteq> g"
  shows "\<exists>m1 m2 W R1 R2.
     m = m1 @ (g, cards) # m2 \<and>
     g \<notin> fst ` set R1 \<and> g \<notin> fst ` set R2 \<and>
     mergeLines existing m =
       W @ concat (map (\<lambda>(g', cards'). (''\<newline>## '' @ g' @ ''\<newline>'') # map cardLine cards') R1) @
       ((''\<newline>## '' @ g @ ''\<newline>'') # map cardLine cards) @
       concat (map (\<lambda>(g', cards'). (''\<newline>## '' @ g' @ ''\<newline>'') # map cardLine cards') R2) \<and>
     merge existing m =
       join_lines (W @ concat (map (\<lambda>(g', cards').
          (''\<newline>## '' @ g' @ ''\<newline>'') # map cardLine cards') R1)) @
       ''\<newline>\<newline>## '' @ g @ ''\<newline>'' @
       concat (map (\<lambda>c. ''\<newline>'' @ cardLine c) cards) @
       concat (map (\<lambda>l. ''\<newline>'' @ l) (concat (map (\<lambda>(g', cards').
          (''\<newline>## '' @ g' @ ''\<newline>'') # map cardLine cards') R2))) \<and>
     ((W = split_lines (initialContent existing) \<and> R1 = m1 \<and> R2 = m2 \<and>
       \<not> (\<exists>j cs. Suc j < length (split_lines (initialContent existing)) \<and>
          isHeading (split_lines (initialContent existing) ! j) \<and>
          (\<forall>i. j < i \<and> i < length (split_lines (initialContent existing)) \<longrightarrow>
               \<not> isHeading (split_lines (initialContent existing) ! i)) \<and>
          map_of m (sectionName (split_lines (initialContent existing) ! j)) = Some cs)) \<or>
      (\<exists>j cs. Suc j < length (split_lines (initialContent existing)) \<and>
         isHeading (split_lines (initialContent existing) ! j) \<and>
         (\<forall>i. j < i \<and> i < length (split_lines (initialContent existing)) \<longrightarrow>
              \<not> isHeading (split_lines (initialContent existing) ! i)) \<and>
         sectionName (split_lines (initialContent existing) ! j) \<noteq> g \<and>
         map_of m (sectionName (split_lines (initialContent existing) ! j)) = Some cs \<and>
         W = take (Suc j) (split_lines (initialContent existing)) @ map cardLine cs @
             drop (Suc j) (split_lines (initialContent existing)) \<and>
         R1 = map_delete m1 (sectionName (split_lines (initialContent existing) ! j)) \<and>
         R2 = map_delete m2 (sectionName (split_lines (initialContent existing) ! j)))) \<and>
     ((\<forall>k\<in>fst ` set m.
         \<forall>l\<in>set (split_lines (case existing of None \<Rightarrow> [] | Some d \<Rightarrow> d)).
           isHeading l \<longrightarrow> sectionName l \<noteq> k) \<longrightarrow>
      mergeLines existing m =
        split_lines (initialContent existing) @
        concat (map (\<lambda>(g', cards'). (''\<newline>## '' @ g' @ ''\<newline>'') # map cardLine cards') m))"
proof -
  let ?L = "split_lines (initialContent existing)"
  let ?D = "split_lines (case existing of None \<Rightarrow> [] | Some d \<Rightarrow> d)"
  let ?sec = "\<lambda>(g', cards'). (''\<newline>## '' @ g' @ ''\<newline>'') # map cardLine cards'"
  have ne: "?L \<noteq> []" by (rule split_lines_nonempty)
  have inD: "l \<in> set ?D" if "l \<in> set ?L" "isHeading l" for l
  proof -
    from that(2) headerLines_no_heading have "l \<notin> set headerLines" by blast
    with that(1) initialContent_lines[of existing] show ?thesis by blast
  qed
  from assms(1) obtain m1 m2 where sp: "m = m1 @ (g, cards) # m2" by (meson split_list)
  have g1: "g \<notin> fst ` set m1" and g2: "g \<notin> fst ` set m2"
    using assms(2) unfolding sp by auto
  have tx: "merge existing m =
       join_lines (W @ concat (map ?sec R1)) @ ''\<newline>\<newline>## '' @ g @ ''\<newline>'' @
       concat (map (\<lambda>c. ''\<newline>'' @ cardLine c) cards) @
       concat (map (\<lambda>l. ''\<newline>'' @ l) (concat (map ?sec R2)))"
    if ml: "mergeLines existing m =
       W @ concat (map ?sec R1) @ ((''\<newline>## '' @ g @ ''\<newline>'') # map cardLine cards) @
       concat (map ?sec R2)" and wne: "W \<noteq> []" for W R1 R2
  proof -
    have "W @ concat (map ?sec R1) \<noteq> []" using wne by simp
    then have "join_lines ((W @ concat (map ?sec R1)) @
        ((''\<newline>## '' @ g @ ''\<newline>'') # map cardLine cards @ concat (map ?sec R2))) =
       join_lines (W @ concat (map ?sec R1)) @ concat (map (\<lambda>l. ''\<newline>'' @ l)
         ((''\<newline>## '' @ g @ ''\<newline>'') # map cardLine cards @ concat (map ?sec R2)))"
      by (rule join_lines_snoc_list)
    then show ?thesis by (simp add: merge_def ml comp_def)
  qed
  have noflush: "mergeLines existing m = ?L @ concat (map ?sec m)"
    if "contentLines (walk ?L m) = ?L \<and> groupedCards (walk ?L m) = m"
    using that by (simp add: mergeLines_def processLines_def Let_def appendGroups_closed)
  have allabsent: "mergeLines existing m = ?L @ concat (map ?sec m)"
    if aa: "\<forall>k\<in>fst ` set m. \<forall>l\<in>set ?D. isHeading l \<longrightarrow> sectionName l \<noteq> k"
  proof -
    have "\<not> (\<exists>j cs. Suc j < length ?L \<and> isHeading (?L ! j) \<and>
            (\<forall>i. j < i \<and> i < length ?L \<longrightarrow> \<not> isHeading (?L ! i)) \<and>
            map_of m (sectionName (?L ! j)) = Some cs)"
    proof
      assume "\<exists>j cs. Suc j < length ?L \<and> isHeading (?L ! j) \<and>
            (\<forall>i. j < i \<and> i < length ?L \<longrightarrow> \<not> isHeading (?L ! i)) \<and>
            map_of m (sectionName (?L ! j)) = Some cs"
      then obtain j cs where j: "Suc j < length ?L" "isHeading (?L ! j)"
        "map_of m (sectionName (?L ! j)) = Some cs" by blast
      have "?L ! j \<in> set ?L" using j(1) by simp
      then have "?L ! j \<in> set ?D" using j(2) by (rule inD)
      moreover have "sectionName (?L ! j) \<in> fst ` set m"
        using j(3) by (metis map_of_SomeD fst_conv image_eqI)
      ultimately show False using aa j(2) by blast
    qed
    from walk_no_flush[OF ne this] show ?thesis by (rule noflush)
  qed
  show ?thesis
  proof (cases "\<exists>j cs. Suc j < length ?L \<and> isHeading (?L ! j) \<and>
            (\<forall>i. j < i \<and> i < length ?L \<longrightarrow> \<not> isHeading (?L ! i)) \<and>
            map_of m (sectionName (?L ! j)) = Some cs")
    case False
    from walk_no_flush[OF ne False]
    have u: "contentLines (walk ?L m) = ?L \<and> groupedCards (walk ?L m) = m" .
    have ml: "mergeLines existing m =
       ?L @ concat (map ?sec m1) @ ((''\<newline>## '' @ g @ ''\<newline>'') # map cardLine cards) @
       concat (map ?sec m2)"
      using noflush[OF u] by (simp add: sp)
    from sp g1 g2 ml tx[OF ml ne] False allabsent show ?thesis by blast
  next
    case True
    then obtain j cs where j: "Suc j < length ?L" "isHeading (?L ! j)"
      "\<forall>i. j < i \<and> i < length ?L \<longrightarrow> \<not> isHeading (?L ! i)"
      "map_of m (sectionName (?L ! j)) = Some cs" by blast
    from walk_flush[OF j]
    have w: "contentLines (walk ?L m) = take (Suc j) ?L @ map cardLine cs @ drop (Suc j) ?L"
      and d: "groupedCards (walk ?L m) = map_delete m (sectionName (?L ! j))" by simp_all
    let ?k = "sectionName (?L ! j)"
    let ?W = "take (Suc j) ?L @ map cardLine cs @ drop (Suc j) ?L"
    have "?L ! j \<in> set ?L" using j(1) by simp
    then have "?L ! j \<in> set ?D" using j(2) by (rule inD)
    with assms(3) j(2) have kg: "?k \<noteq> g" by blast
    have del: "map_delete m ?k = map_delete m1 ?k @ (g, cards) # map_delete m2 ?k"
      using kg by (simp add: sp map_delete_def)
    have ml: "mergeLines existing m =
       ?W @ concat (map ?sec (map_delete m1 ?k)) @
       ((''\<newline>## '' @ g @ ''\<newline>'') # map cardLine cards) @
       concat (map ?sec (map_delete m2 ?k))"
      by (simp add: mergeLines_def processLines_def Let_def appendGroups_closed w d del)
    have wne: "?W \<noteq> []" using j(1) by auto
    have r1: "g \<notin> fst ` set (map_delete m1 ?k)" using g1 map_delete_keys[of m1 ?k] by blast
    have r2: "g \<notin> fst ` set (map_delete m2 ?k)" using g2 map_delete_keys[of m2 ?k] by blast
    have dj: "\<exists>j cs. Suc j < length ?L \<and> isHeading (?L ! j) \<and>
         (\<forall>i. j < i \<and> i < length ?L \<longrightarrow> \<not> isHeading (?L ! i)) \<and>
         sectionName (?L ! j) \<noteq> g \<and> map_of m (sectionName (?L ! j)) = Some cs \<and>
         ?W = take (Suc j) ?L @ map cardLine cs @ drop (Suc j) ?L \<and>
         map_delete m1 ?k = map_delete m1 (sectionName (?L ! j)) \<and>
         map_delete m2 ?k = map_delete m2 (sectionName (?L ! j))"
      using j(1) j(2) j(3) j(4) kg by blast
    from sp r1 r2 ml tx[OF ml wne] dj allabsent show ?thesis by blast
  qed
qed

theorem merge_appends_absent_group_witness:
  "(''B'', [blueCard ''b1'', blueCard ''b2'']) \<in>
     set [(''A'', [blueCard ''new'']), (''B'', [blueCard ''b1'', blueCard ''b2''])] \<and>
   distinct (map fst [(''A'', [blueCard ''new'']), (''B'', [blueCard ''b1'', blueCard ''b2''])]) \<and>
   map sectionName (filter isHeading (split_lines (header @ ''## A\<newline>x''))) = [''A''] \<and>
   merge (Some (header @ ''## A\<newline>x''))
     [(''A'', [blueCard ''new'']), (''B'', [blueCard ''b1'', blueCard ''b2''])] =
     header @ ''## A\<newline>- [ ] new\<newline>x\<newline>\<newline>## B\<newline>\<newline>- [ ] b1\<newline>- [ ] b2'' \<and>
   (\<exists>W R1 R2.
      mergeLines (Some (header @ ''## A\<newline>x''))
        [(''A'', [blueCard ''new'']), (''B'', [blueCard ''b1'', blueCard ''b2''])] =
        W @ concat (map (\<lambda>(g', cards'). (''\<newline>## '' @ g' @ ''\<newline>'') # map cardLine cards') R1) @
        ((''\<newline>## '' @ ''B'' @ ''\<newline>'') # map cardLine [blueCard ''b1'', blueCard ''b2'']) @
        concat (map (\<lambda>(g', cards'). (''\<newline>## '' @ g' @ ''\<newline>'') # map cardLine cards') R2) \<and>
      ''B'' \<notin> fst ` set R1 \<and> ''B'' \<notin> fst ` set R2)"
proof -
  let ?m = "[(''A'', [blueCard ''new'']), (''B'', [blueCard ''b1'', blueCard ''b2''])]"
  let ?e = "Some (header @ ''## A\<newline>x'')"
  have h1: "(''B'', [blueCard ''b1'', blueCard ''b2'']) \<in> set ?m" by simp
  have hd: "distinct (map fst ?m)" by simp
  have h2: "\<forall>l\<in>set (split_lines (header @ ''## A\<newline>x'')). isHeading l \<longrightarrow> sectionName l \<noteq> ''B''"
    by code_simp
  have hn: "map sectionName (filter isHeading (split_lines (header @ ''## A\<newline>x''))) = [''A'']"
    by code_simp
  have h2': "\<forall>l\<in>set (split_lines (case ?e of None \<Rightarrow> [] | Some d \<Rightarrow> d)).
               isHeading l \<longrightarrow> sectionName l \<noteq> ''B''"
    using h2 by simp
  have v: "merge ?e ?m =
     header @ ''## A\<newline>- [ ] new\<newline>x\<newline>\<newline>## B\<newline>\<newline>- [ ] b1\<newline>- [ ] b2''"
    by code_simp
  from merge_appends_absent_group[OF h1 hd h2']
  have "\<exists>W R1 R2.
      mergeLines ?e ?m =
        W @ concat (map (\<lambda>(g', cards'). (''\<newline>## '' @ g' @ ''\<newline>'') # map cardLine cards') R1) @
        ((''\<newline>## '' @ ''B'' @ ''\<newline>'') # map cardLine [blueCard ''b1'', blueCard ''b2'']) @
        concat (map (\<lambda>(g', cards'). (''\<newline>## '' @ g' @ ''\<newline>'') # map cardLine cards') R2) \<and>
      ''B'' \<notin> fst ` set R1 \<and> ''B'' \<notin> fst ` set R2"
    by blast
  with h1 hd hn v show ?thesis by blast
qed

section \<open>Merging nothing\<close>

text \<open>
  C3. With an empty map, a document that begins with the header comes back unchanged,
  character for character. The result of any merge begins with the header, so merging
  nothing into it leaves it unchanged.
\<close>

theorem merge_empty_map_unchanged:
  "(startsWith d header \<longrightarrow> merge (Some d) [] = d) \<and>
   merge (Some (merge existing m)) [] = merge existing m"
proof -
  obtain rest where "merge existing m = header @ rest"
    using merge_starts_with_header by blast
  then have "startsWith (merge existing m) header" by (simp add: startsWith_def)
  then show ?thesis using merge_empty_map by blast
qed

theorem merge_empty_map_unchanged_witness:
  "startsWith (header @ ''## Todo\<newline>- [ ] existing\<newline>'') header \<and>
   merge (Some (header @ ''## Todo\<newline>- [ ] existing\<newline>'')) [] =
     header @ ''## Todo\<newline>- [ ] existing\<newline>''"
proof -
  have h: "startsWith (header @ ''## Todo\<newline>- [ ] existing\<newline>'') header"
    by (simp add: startsWith_def)
  from merge_empty_map_unchanged[of "header @ ''## Todo\<newline>- [ ] existing\<newline>''"] h
  show ?thesis by blast
qed

section \<open>The header\<close>

text \<open>
  C4. For a document that does not begin with the header (the empty document among
  them), the result is the header, once and in front, followed by what the walk and the
  pushes make of the document's own lines; with nothing to merge it is the header
  followed by the document. For a document that begins with the header, the lines
  processed are the document's own, and the result is the header followed by what the
  walk and the pushes make of the lines after it: no header is added. An absent file
  counts as the header followed by one empty line. Merging the one card "a" of group
  "Todo" into the empty or absent document gives the header, then a "## Todo" section
  with the one entry "- [ ] a".
\<close>

theorem merge_header_once:
  "(\<not> startsWith d header \<longrightarrow>
      mergeLines (Some d) m = headerLines @ processLines (split_lines d) m \<and>
      merge (Some d) m = header @ join_lines (processLines (split_lines d) m) \<and>
      merge (Some d) [] = header @ d) \<and>
   (startsWith d header \<longrightarrow>
      mergeLines (Some d) m = processLines (split_lines d) m \<and>
      merge (Some d) [] = d) \<and>
   mergeLines (Some (header @ r)) m = headerLines @ processLines (split_lines r) m \<and>
   merge (Some (header @ r)) m = header @ join_lines (processLines (split_lines r) m) \<and>
   mergeLines None m = headerLines @ processLines [''''] m \<and>
   merge None m = header @ join_lines (processLines [''''] m) \<and>
   merge (Some []) [(''Todo'', [blueCard ''a''])] =
     header @ ''\<newline>\<newline>## Todo\<newline>\<newline>- [ ] a'' \<and>
   merge None [(''Todo'', [blueCard ''a''])] =
     header @ ''\<newline>\<newline>## Todo\<newline>\<newline>- [ ] a''"
proof -
  have a: "mergeLines (Some d) m = headerLines @ processLines (split_lines d) m \<and>
      merge (Some d) m = header @ join_lines (processLines (split_lines d) m) \<and>
      merge (Some d) [] = header @ d"
    if nh: "\<not> startsWith d header"
  proof -
    have 1: "mergeLines (Some d) m = headerLines @ processLines (split_lines d) m"
      using nh by (rule mergeLines_without_header)
    have 2: "merge (Some d) m = header @ join_lines (processLines (split_lines d) m)"
      using processLines_nonempty[OF split_lines_nonempty, of d m]
      by (simp add: merge_def 1 join_header_lines)
    have "mergeLines (Some d) [] = headerLines @ split_lines d"
      using mergeLines_without_header[OF nh, of "[]"]
        processLines_empty_map[OF split_lines_nonempty, of d] by simp
    then have 3: "merge (Some d) [] = header @ d"
      using split_lines_nonempty[of d] by (simp add: merge_def join_header_lines join_split_lines)
    from 1 2 3 show ?thesis by blast
  qed
  have b: "mergeLines (Some d) m = processLines (split_lines d) m \<and> merge (Some d) [] = d"
    if h: "startsWith d header"
    using h merge_empty_map[OF h] by (simp add: mergeLines_def initialContent_def)
  have c: "mergeLines (Some (header @ r)) m = headerLines @ processLines (split_lines r) m"
    by (rule mergeLines_with_header)
  have d: "merge (Some (header @ r)) m = header @ join_lines (processLines (split_lines r) m)"
    using processLines_nonempty[OF split_lines_nonempty, of r m]
    by (simp add: merge_def c join_header_lines)
  have e: "mergeLines None m = headerLines @ processLines [''''] m"
    by (rule mergeLines_absent_file)
  have f: "merge None m = header @ join_lines (processLines [''''] m)"
    using processLines_nonempty[of "['''']" m] by (simp add: merge_def e join_header_lines)
  have g: "merge (Some []) [(''Todo'', [blueCard ''a''])] =
     header @ ''\<newline>\<newline>## Todo\<newline>\<newline>- [ ] a''" by code_simp
  have h: "merge None [(''Todo'', [blueCard ''a''])] =
     header @ ''\<newline>\<newline>## Todo\<newline>\<newline>- [ ] a''" by code_simp
  from a b c d e f g h show ?thesis by blast
qed

theorem merge_header_once_witness:
  "\<not> startsWith ''notes'' header \<and>
   mergeLines (Some ''notes'') [(''Todo'', [blueCard ''a''])] =
     headerLines @ processLines (split_lines ''notes'') [(''Todo'', [blueCard ''a''])] \<and>
   merge (Some ''notes'') [(''Todo'', [blueCard ''a''])] =
     header @ ''notes\<newline>\<newline>## Todo\<newline>\<newline>- [ ] a'' \<and>
   merge (Some ''notes'') [] = header @ ''notes'' \<and>
   startsWith (header @ ''notes'') header \<and>
   merge (Some (header @ ''notes'')) [] = header @ ''notes''"
proof -
  have h1: "\<not> startsWith ''notes'' header" by (simp add: startsWith_def header_def)
  have h2: "startsWith (header @ ''notes'') header" by (simp add: startsWith_def)
  have v: "join_lines (processLines (split_lines ''notes'') [(''Todo'', [blueCard ''a''])]) =
           ''notes\<newline>\<newline>## Todo\<newline>\<newline>- [ ] a''" by code_simp
  from merge_header_once[of "''notes''" "[(''Todo'', [blueCard ''a''])]"] h1
  have a: "mergeLines (Some ''notes'') [(''Todo'', [blueCard ''a''])] =
     headerLines @ processLines (split_lines ''notes'') [(''Todo'', [blueCard ''a''])]"
    and b: "merge (Some ''notes'') [(''Todo'', [blueCard ''a''])] =
            header @ join_lines (processLines (split_lines ''notes'') [(''Todo'', [blueCard ''a''])])"
    and c: "merge (Some ''notes'') [] = header @ ''notes''"
    by blast+
  from b v have b': "merge (Some ''notes'') [(''Todo'', [blueCard ''a''])] =
     header @ ''notes\<newline>\<newline>## Todo\<newline>\<newline>- [ ] a''" by simp
  from merge_header_once[of "header @ ''notes''"] h2
  have d: "merge (Some (header @ ''notes'')) [] = header @ ''notes''" by blast
  from h1 a b' c h2 d show ?thesis by blast
qed

section \<open>Sections that already exist\<close>

text \<open>
  The cards of a group whose name the last heading line of the file does not carry are not
  spliced under any heading: the group stays in the map and is pushed at the end of the
  file under a heading of its own, whether or not an earlier heading carries its name.
\<close>

lemma merge_group_not_last_appended:
  assumes "(g, cards) \<in> set m"
    and "\<forall>j<length (split_lines (initialContent existing)).
           isHeading (split_lines (initialContent existing) ! j) \<and>
           (\<forall>i. j < i \<and> i < length (split_lines (initialContent existing)) \<longrightarrow>
                \<not> isHeading (split_lines (initialContent existing) ! i))
           \<longrightarrow> sectionName (split_lines (initialContent existing) ! j) \<noteq> g"
  shows "\<exists>pre post.
     mergeLines existing m = pre @ (''\<newline>## '' @ g @ ''\<newline>'') # map cardLine cards @ post \<and>
     subseq (split_lines (initialContent existing)) pre"
proof -
  have "(g, cards) \<in> set (groupedCards (walk (split_lines (initialContent existing)) m))"
    using split_lines_nonempty assms by (rule walk_keeps_group_not_last)
  from mergeLines_remaining[OF this] show ?thesis by blast
qed

text \<open>
  C1. Claimed: the cards of a group whose heading line exists in the document are spliced
  right after that heading line, above the lines the section already has, and the group
  gets no second section at the end. The code does this when the section is the last one
  of the file (first equation). When another heading follows, it does not: the section
  is left as it was and the cards are pushed at the end under a second heading of the
  same name (second equation). The callback splices only at the last index, for the last
  heading: its second test of \<^verbatim>\<open>line.startsWith('## ')\<close> sits in the else branch of the
  first and is never true.
\<close>

theorem merge_earlier_section_duplicated:
  "merge (Some (header @ ''## Todo\<newline>- [ ] existing\<newline>'')) [(''Todo'', [blueCard ''new''])] =
     header @ ''## Todo\<newline>- [ ] new\<newline>- [ ] existing\<newline>'' \<and>
   merge (Some (header @ ''## A\<newline>- [ ] old\<newline>## B\<newline>- [ ] other\<newline>''))
     [(''A'', [blueCard ''new''])] =
     header @ ''## A\<newline>- [ ] old\<newline>## B\<newline>- [ ] other\<newline>\<newline>\<newline>## A\<newline>\<newline>- [ ] new''"
  by code_simp

end
